theory Spec2Isabelle
  imports
    Main
    "HOL-Library.Sublist"
    "HOL-Library.AList"
    "HOL-Library.List_Lexorder"
    "HOL-Library.Product_Lexorder"
    "HOL-Library.Multiset"
begin

section \<open>Python strings and the builtins the program calls\<close>

text \<open>
  A Python \<open>str\<close> is a sequence of Unicode code points; \<open>len\<close> counts code points and
  string comparison is lexicographic on them. A string is therefore a list of code points
  (natural numbers). ASCII literals of the source are written through \<open>lit\<close>.

  The interpreter's configurable cap on the number of digits in \<open>int\<close>/\<open>str\<close> conversions
  and decimal digits outside ASCII are not part of the model of \<open>int()\<close>: of digits only
  the ASCII ones are accepted, everything else is a \<open>ValueError\<close>. No statement below
  rests on a \<open>ValueError\<close> of a field with non-ASCII digits. The whitespace \<open>int()\<close> skips
  is modelled exactly; it is not that of \<open>str.strip()\<close>.
\<close>

type_synonym str = "nat list"

definition lit :: "string \<Rightarrow> str" where
  "lit s = map of_char s"

datatype error = ValueError | IndexError

definition SPACE :: nat where "SPACE = 32"
definition TAB :: nat where "TAB = 9"
definition NEWLINE :: nat where "NEWLINE = 10"
definition SLASH :: nat where "SLASH = 47"
definition MINUS :: nat where "MINUS = 45"
definition PLUS :: nat where "PLUS = 43"
definition UNDERSCORE :: nat where "UNDERSCORE = 95"
definition LBRACE :: nat where "LBRACE = 123"
definition RBRACE :: nat where "RBRACE = 125"
definition ESC :: nat where "ESC = 27"

text \<open>\<open>str.isspace\<close> on one code point: the characters \<open>str.strip()\<close> removes.\<close>

definition py_isspace :: "nat \<Rightarrow> bool" where
  "py_isspace c =
     ((9 \<le> c \<and> c \<le> 13) \<or> (28 \<le> c \<and> c \<le> 32) \<or> c = 133 \<or> c = 160 \<or> c = 5760
      \<or> (8192 \<le> c \<and> c \<le> 8202) \<or> c = 8232 \<or> c = 8233 \<or> c = 8239 \<or> c = 8287
      \<or> c = 12288)"

text \<open>\<open>s.strip()\<close>: leading and trailing whitespace removed.\<close>

definition py_strip :: "str \<Rightarrow> str" where
  "py_strip s = rev (dropWhile py_isspace (rev (dropWhile py_isspace s)))"

text \<open>
  \<open>s.split(sep)\<close> with an explicit separator: the string is cut at the leftmost
  occurrences of \<open>sep\<close>, scanning left to right; the result always has at least one
  element. Python raises \<open>ValueError\<close> for the empty separator; every separator of the
  program is a non-empty literal, and the model returns the string uncut in that case.
\<close>

fun py_split :: "str \<Rightarrow> str \<Rightarrow> str list" where
  "py_split sep [] = [[]]"
| "py_split sep (c # cs) =
     (if sep \<noteq> [] \<and> prefix sep (c # cs)
      then [] # py_split sep (drop (length sep) (c # cs))
      else (case py_split sep cs of
              [] \<Rightarrow> [[c]]
            | x # xs \<Rightarrow> (c # x) # xs))"

text \<open>\<open>s.replace(c, "")\<close> for a one-character \<open>c\<close>.\<close>

definition py_remove :: "nat \<Rightarrow> str \<Rightarrow> str" where
  "py_remove c s = filter (\<lambda>x. x \<noteq> c) s"

text \<open>\<open>sub in s\<close> is \<^const>\<open>sublist\<close>: \<open>sub\<close> occurs contiguously in \<open>s\<close>.\<close>

text \<open>\<open>str(n)\<close> for an integer: decimal digits, most significant first, \<open>-\<close> in front of a
  negative number.\<close>

fun digits :: "nat \<Rightarrow> str" where
  "digits n = (if n < 10 then [48 + n] else digits (n div 10) @ [48 + n mod 10])"

declare digits.simps [simp del]

definition py_str :: "int \<Rightarrow> str" where
  "py_str i = (if i < 0 then MINUS # digits (nat (- i)) else digits (nat i))"

text \<open>
  \<open>int(s)\<close> in base 10: surrounding whitespace is dropped, one sign is allowed, then
  decimal digits with single underscores allowed between digits. The whitespace \<open>int()\<close>
  drops is that of \<open>str.isspace\<close> without the separators U+001C to U+001F: \<open>int("7\x1c")\<close>
  raises \<open>ValueError\<close> although \<open>"7\x1c".strip()\<close> is \<open>"7"\<close>.
\<close>

definition int_isspace :: "nat \<Rightarrow> bool" where
  "int_isspace c = (py_isspace c \<and> \<not> (28 \<le> c \<and> c \<le> 31))"

definition int_strip :: "str \<Rightarrow> str" where
  "int_strip s = rev (dropWhile int_isspace (rev (dropWhile int_isspace s)))"

definition is_digit :: "nat \<Rightarrow> bool" where
  "is_digit c = (48 \<le> c \<and> c \<le> 57)"

fun py_digits :: "str \<Rightarrow> nat \<Rightarrow> nat option" where
  "py_digits [] acc = None"
| "py_digits [c] acc = (if is_digit c then Some (10 * acc + (c - 48)) else None)"
| "py_digits (c # d # ds) acc =
     (if is_digit c
      then (if d = UNDERSCORE then py_digits ds (10 * acc + (c - 48))
            else py_digits (d # ds) (10 * acc + (c - 48)))
      else None)"

definition py_int :: "str \<Rightarrow> error + int" where
  "py_int s =
     (case int_strip s of
        [] \<Rightarrow> Inl ValueError
      | c # r \<Rightarrow>
          if c = MINUS then (case py_digits r 0 of None \<Rightarrow> Inl ValueError | Some n \<Rightarrow> Inr (- int n))
          else if c = PLUS then (case py_digits r 0 of None \<Rightarrow> Inl ValueError | Some n \<Rightarrow> Inr (int n))
          else (case py_digits (c # r) 0 of None \<Rightarrow> Inl ValueError | Some n \<Rightarrow> Inr (int n)))"

text \<open>\<open>s.rjust(w)\<close>: padded with spaces on the left up to width \<open>w\<close>; unchanged when
  \<open>w\<close> is not larger than \<open>len(s)\<close> (also for a negative \<open>w\<close>).\<close>

definition rjust :: "str \<Rightarrow> int \<Rightarrow> str" where
  "rjust s w = replicate (nat (w - int (length s))) SPACE @ s"

section \<open>diff.py: change records and the numstat parser\<close>

record FileChange =
  path :: str
  insertions :: int
  deletions :: int
  loc :: "int option"

definition net :: "FileChange \<Rightarrow> int" where
  "net c = insertions c - deletions c"

definition total :: "FileChange \<Rightarrow> int" where
  "total c = insertions c + deletions c"

definition arrow :: str where
  "arrow = lit '' => ''"

definition dash :: str where
  "dash = lit ''-''"

text \<open>
  The rename handling of \<open>parse_numstat\<close> (the body of \<open>if " => " in path\<close>): braces are
  removed, and when the arrow is still there the element of index 1 of the split is taken.
\<close>

definition rename_path :: "str \<Rightarrow> error + str" where
  "rename_path p =
     (if sublist arrow p
      then (let q = py_remove RBRACE (py_remove LBRACE p)
            in if sublist arrow q
               then (case py_split arrow q of
                       _ # r # _ \<Rightarrow> Inr r
                     | _ \<Rightarrow> Inl IndexError)
               else Inr q)
      else Inr p)"

text \<open>
  The loop of \<open>parse_numstat\<close> over the lines, with the list \<open>changes\<close> it appends to.
  An exception of \<open>int()\<close> ends the whole call.
\<close>

fun parse_lines :: "str list \<Rightarrow> FileChange list \<Rightarrow> error + FileChange list" where
  "parse_lines [] changes = Inr changes"
| "parse_lines (line # rest) changes =
     (if line = [] then parse_lines rest changes
      else (case py_split [TAB] line of
              p0 # p1 # p2 # _ \<Rightarrow>
                (case (if p0 \<noteq> dash then py_int p0 else Inr 0) of
                   Inl e \<Rightarrow> Inl e
                 | Inr ins \<Rightarrow>
                     (case (if p1 \<noteq> dash then py_int p1 else Inr 0) of
                        Inl e \<Rightarrow> Inl e
                      | Inr dels \<Rightarrow>
                          (case rename_path p2 of
                             Inl e \<Rightarrow> Inl e
                           | Inr pth \<Rightarrow>
                               parse_lines rest
                                 (changes @ [\<lparr>path = pth, insertions = ins,
                                              deletions = dels, loc = None\<rparr>]))))
            | _ \<Rightarrow> parse_lines rest changes))"

definition parse_numstat :: "str \<Rightarrow> error + FileChange list" where
  "parse_numstat output =
     (if output = [] \<or> py_strip output = [] then Inr []
      else parse_lines (py_split [NEWLINE] (py_strip output)) [])"

section \<open>tree.py: the directory tree\<close>

text \<open>
  A \<open>TreeNode\<close>. The dictionary \<open>children\<close> keeps its keys in insertion order, which is the
  order \<open>children.values()\<close> hands to \<open>sorted\<close>; it is an association list with the
  dictionary's assignment \<^const>\<open>AList.update\<close> (an existing key keeps its place, a new
  key goes to the end).
\<close>

datatype TreeNode =
  TreeNode (name: str) (is_file: bool) (node_insertions: int) (node_deletions: int)
           (node_loc: "int option") (children: "(str \<times> TreeNode) list")

definition set_children :: "TreeNode \<Rightarrow> (str \<times> TreeNode) list \<Rightarrow> TreeNode" where
  "set_children node kids =
     TreeNode (name node) (is_file node) (node_insertions node) (node_deletions node)
              (node_loc node) kids"

text \<open>
  The inner loop of \<open>build_tree\<close> for one change, started at \<open>node\<close> with the path
  segments still to walk: a missing child is created (a file node with the change's numbers
  for the last segment, an empty directory node otherwise), then the walk goes on in the
  child. \<open>is_file\<close> is \<open>i == len(parts) - 1\<close>: no segment is left after this one.
\<close>

fun insert_parts :: "FileChange \<Rightarrow> str list \<Rightarrow> TreeNode \<Rightarrow> TreeNode" where
  "insert_parts change [] node = node"
| "insert_parts change (part # rest) node =
     (let isf = (rest = []) in
      case map_of (children node) part of
        None \<Rightarrow>
          set_children node
            (AList.update part
               (insert_parts change rest
                  (TreeNode part isf
                     (if isf then insertions change else 0)
                     (if isf then deletions change else 0)
                     (if isf then loc change else None) []))
               (children node))
      | Some child \<Rightarrow>
          set_children node
            (AList.update part (insert_parts change rest child) (children node)))"

definition root_node :: TreeNode where
  "root_node = TreeNode (lit ''.'') False 0 0 None []"

definition build_tree :: "FileChange list \<Rightarrow> TreeNode" where
  "build_tree changes =
     foldl (\<lambda>root change. insert_parts change (py_split [SLASH] (path change)) root)
           root_node changes"

definition GREEN :: str where "GREEN = ESC # lit ''[32m''"
definition RED :: str where "RED = ESC # lit ''[31m''"
definition RESET :: str where "RESET = ESC # lit ''[0m''"

definition format_stats_aligned ::
  "int option \<Rightarrow> int \<Rightarrow> int \<Rightarrow> int \<Rightarrow> int \<Rightarrow> int \<Rightarrow> bool \<Rightarrow> str" where
  "format_stats_aligned lc ins dels loc_width ins_width dels_width use_color =
     (let loc_str = (case lc of Some n \<Rightarrow> py_str n | None \<Rightarrow> dash);
          loc_padded = rjust loc_str loc_width;
          ins_padded = rjust (py_str ins) ins_width;
          dels_padded = rjust (py_str dels) dels_width
      in if use_color
         then loc_padded @ lit ''  '' @ GREEN @ lit ''+'' @ ins_padded @ RESET @ lit '' ''
              @ RED @ lit ''-'' @ dels_padded @ RESET
         else loc_padded @ lit ''  +'' @ ins_padded @ lit '' -'' @ dels_padded)"

record TreeLine =
  text_of :: str
  stats :: "(int option \<times> int \<times> int) option"

text \<open>The connectors: U+2514 U+2500 U+2500 SPACE, U+251C U+2500 U+2500 SPACE, and the
  continuation U+2502 followed by three spaces.\<close>

definition CORNER :: str where "CORNER = [9492, 9472, 9472, 32]"
definition BRANCH :: str where "BRANCH = [9500, 9472, 9472, 32]"
definition VBAR :: str where "VBAR = [9474, 32, 32, 32]"

text \<open>The sort key of \<open>_collect_lines\<close>: the pair \<open>(is_file, name)\<close>, compared as Python
  compares tuples (\<open>False < True\<close>, strings by code points).\<close>

definition sort_key_of :: "TreeNode \<Rightarrow> bool \<times> str" where
  "sort_key_of n = (is_file n, name n)"

function collect_lines :: "TreeNode \<Rightarrow> str \<Rightarrow> TreeLine list" where
  "collect_lines node pre =
     (let kids = sort_key sort_key_of (map snd (children node)) in
      concat (map (\<lambda>(i, child).
        (let is_last = (int i = int (length kids) - 1);
             connector = (if is_last then CORNER else BRANCH)
         in if is_file child
            then [\<lparr>text_of = pre @ connector @ name child,
                   stats = Some (node_loc child, node_insertions child, node_deletions child)\<rparr>]
            else \<lparr>text_of = pre @ connector @ name child @ [SLASH], stats = None\<rparr>
                 # collect_lines child (pre @ (if is_last then lit ''    '' else VBAR))))
        (enumerate 0 kids)))"
  by pat_completeness auto

termination collect_lines
proof (relation "measure (\<lambda>(node, pre). size node)")
  show "wf (measure (\<lambda>(node, pre). size node))" by simp
next
  fix node :: TreeNode and pre :: str and x xa and x1 :: nat and x2 :: TreeNode and xb xc
  assume sorted_kids: "x = sort_key sort_key_of (map snd (children node))"
    and "xa \<in> set (enumerate 0 x)" and "(x1, x2) = xa"
  then have "x1 < length x" "x2 = x ! x1"
    by (auto simp: in_set_enumerate_eq)
  then have "x2 \<in> set x" by simp
  with sorted_kids have "x2 \<in> set (sort_key sort_key_of (map snd (children node)))" by simp
  then have "x2 \<in> snd ` set (children node)" by simp
  then obtain k where k: "(k, x2) \<in> set (children node)" by auto
  have smaller: "(k, c) \<in> set kids \<Longrightarrow> size c < Suc (size_list (size_prod (\<lambda>_. 0) size) kids)"
    for k :: str and c :: TreeNode and kids
    by (induction kids) auto
  have "size x2 < size node"
    using k by (cases node) (auto dest: smaller)
  then show "((x2, pre @ (if xc then lit ''    '' else VBAR)), node, pre)
               \<in> measure (\<lambda>(node, pre). size node)"
    by simp
qed

declare collect_lines.simps [simp del]

text \<open>\<open>max\<close> over a sequence, as the builtin folds it from the first element. On an empty
  sequence Python raises; both call sites are guarded (\<open>any(...)\<close>, \<open>if not changes\<close>), so
  the first equation is never used.\<close>

fun py_max :: "int list \<Rightarrow> int" where
  "py_max [] = 0"
| "py_max (w # ws) = fold max ws w"

text \<open>
  The loop of \<open>render_tree\<close> that widens the three column widths, started at \<open>(1, 1, 1)\<close>.
  A stats tuple has three components, so \<open>if line.stats\<close> holds exactly when the stats are
  not \<open>None\<close>.
\<close>

definition widen :: "int option \<times> int \<times> int \<Rightarrow> int \<times> int \<times> int \<Rightarrow> int \<times> int \<times> int" where
  "widen st w =
     (case (st, w) of ((lc, ins, dels), (max_loc_width, max_ins_width, max_dels_width)) \<Rightarrow>
        (let loc_str = (case lc of Some n \<Rightarrow> py_str n | None \<Rightarrow> dash)
         in (max max_loc_width (int (length loc_str)),
             max max_ins_width (int (length (py_str ins))),
             max max_dels_width (int (length (py_str dels))))))"

definition tree_widths :: "TreeLine list \<Rightarrow> int \<times> int \<times> int" where
  "tree_widths tree_lines =
     fold (\<lambda>line w. case stats line of None \<Rightarrow> w | Some st \<Rightarrow> widen st w) tree_lines (1, 1, 1)"

definition render_tree :: "TreeNode \<Rightarrow> str \<Rightarrow> bool \<Rightarrow> str list" where
  "render_tree node pre use_color =
     (let tree_lines = collect_lines node [] in
      if tree_lines = [] then []
      else
        (let max_text_width =
               (if \<exists>line \<in> set tree_lines. stats line \<noteq> None
                then py_max (map (\<lambda>line. int (length (text_of line)))
                                 (filter (\<lambda>line. stats line \<noteq> None) tree_lines))
                else 0)
         in case tree_widths tree_lines of (max_loc_width, max_ins_width, max_dels_width) \<Rightarrow>
              map (\<lambda>line.
                     case stats line of
                       None \<Rightarrow> text_of line
                     | Some (lc, ins, dels) \<Rightarrow>
                         text_of line
                         @ replicate (nat (max_text_width - int (length (text_of line)))) SPACE
                         @ lit ''  ''
                         @ format_stats_aligned lc ins dels
                             max_loc_width max_ins_width max_dels_width use_color)
                  tree_lines))"

section \<open>output.py: flat list and JSON\<close>

text \<open>\<open>output.format_stats_aligned\<close>, a second function of the same text as the one of
  \<open>tree.py\<close>.\<close>

definition output_format_stats_aligned ::
  "int option \<Rightarrow> int \<Rightarrow> int \<Rightarrow> int \<Rightarrow> int \<Rightarrow> int \<Rightarrow> bool \<Rightarrow> str" where
  "output_format_stats_aligned lc ins dels loc_width ins_width dels_width use_color =
     (let loc_str = (case lc of Some n \<Rightarrow> py_str n | None \<Rightarrow> dash);
          loc_padded = rjust loc_str loc_width;
          ins_padded = rjust (py_str ins) ins_width;
          dels_padded = rjust (py_str dels) dels_width
      in if use_color
         then loc_padded @ lit ''  '' @ GREEN @ lit ''+'' @ ins_padded @ RESET @ lit '' ''
              @ RED @ lit ''-'' @ dels_padded @ RESET
         else loc_padded @ lit ''  +'' @ ins_padded @ lit '' -'' @ dels_padded)"

definition flat_widths :: "FileChange list \<Rightarrow> int \<times> int \<times> int" where
  "flat_widths changes =
     fold (\<lambda>c w. widen (loc c, insertions c, deletions c) w) changes (1, 1, 1)"

definition to_flat :: "FileChange list \<Rightarrow> bool \<Rightarrow> str list" where
  "to_flat changes use_color =
     (if changes = [] then []
      else
        (let max_path_len = py_max (map (\<lambda>c. int (length (path c))) changes)
         in case flat_widths changes of (max_loc_width, max_ins_width, max_dels_width) \<Rightarrow>
              map (\<lambda>change.
                     path change
                     @ replicate (nat (max_path_len - int (length (path change)))) SPACE
                     @ lit ''  ''
                     @ output_format_stats_aligned (loc change) (insertions change)
                         (deletions change) max_loc_width max_ins_width max_dels_width use_color)
                  changes))"

text \<open>
  The value \<open>to_json\<close> returns: dictionaries in insertion order, lists, strings, integers
  and \<open>None\<close>, which \<open>json.dumps\<close> writes as \<open>null\<close>.
\<close>

datatype json = JNull | JInt int | JStr str | JList "json list" | JObj "(str \<times> json) list"

definition file_entry :: "FileChange \<Rightarrow> json" where
  "file_entry c =
     JObj [(lit ''path'', JStr (path c)),
           (lit ''loc'', (case loc c of None \<Rightarrow> JNull | Some n \<Rightarrow> JInt n)),
           (lit ''insertions'', JInt (insertions c)),
           (lit ''deletions'', JInt (deletions c))]"

text \<open>\<open>if base_ref:\<close> is Python's truth test: \<open>None\<close> and the empty string are false.\<close>

definition to_json :: "FileChange list \<Rightarrow> str \<Rightarrow> str option \<Rightarrow> json" where
  "to_json changes mode base_ref =
     (let total_ins = sum_list (map insertions changes);
          total_dels = sum_list (map deletions changes);
          result =
            [(lit ''mode'', JStr mode),
             (lit ''files'', JList (map file_entry changes)),
             (lit ''summary'',
                JObj [(lit ''total_insertions'', JInt total_ins),
                      (lit ''total_deletions'', JInt total_dels),
                      (lit ''net'', JInt (total_ins - total_dels)),
                      (lit ''file_count'', JInt (int (length changes)))])]
      in case base_ref of
           None \<Rightarrow> JObj result
         | Some b \<Rightarrow>
             if b \<noteq> [] then JObj (AList.update (lit ''base'') (JStr b) result)
             else JObj result)"

section \<open>cli.py: the comparison mode\<close>

text \<open>The lines of \<open>main\<close> under \<open># Determine mode\<close>.\<close>

definition main_mode :: "bool \<Rightarrow> bool \<Rightarrow> str" where
  "main_mode since_last uncommitted =
     (if since_last then lit ''since-last''
      else if uncommitted then lit ''uncommitted''
      else lit ''default'')"

text \<open>The arguments \<open>get_changes\<close> gives to \<open>git diff\<close> for a mode; \<open>base\<close> is the merge base
  the repository answers with in the default mode.\<close>

definition get_changes_diff_args :: "str \<Rightarrow> str \<Rightarrow> str list" where
  "get_changes_diff_args mode base =
     (if mode = lit ''uncommitted'' then [lit ''--numstat'', lit ''HEAD'']
      else if mode = lit ''since-last'' then [lit ''--numstat'', lit ''HEAD~1'', lit ''HEAD'']
      else [lit ''--numstat'', base, lit ''HEAD''])"

section \<open>Notions the properties are stated with\<close>

text \<open>Reading a key of a JSON object (\<open>d[k]\<close>, \<open>None\<close> for a missing key).\<close>

fun jget :: "str \<Rightarrow> json \<Rightarrow> json option" where
  "jget k (JObj kvs) = map_of kvs k"
| "jget k _ = None"

fun jint :: "json option \<Rightarrow> int" where
  "jint (Some (JInt n)) = n"
| "jint _ = 0"

fun jlist :: "json option \<Rightarrow> json list" where
  "jlist (Some (JList xs)) = xs"
| "jlist _ = []"

text \<open>Reading along a path of keys (\<open>d[k1][k2]\<close>).\<close>

fun jpath :: "str list \<Rightarrow> json \<Rightarrow> json option" where
  "jpath [] j = Some j"
| "jpath (k # ks) j = (case jget k j of None \<Rightarrow> None | Some v \<Rightarrow> jpath ks v)"

text \<open>
  Stripping the escape sequences of a string: every sequence \<open>ESC [ p m\<close>, where \<open>p\<close> is
  made of digits and semicolons, is removed; everything else stays.
\<close>

fun sgr_params :: "str \<Rightarrow> nat option" where
  "sgr_params [] = None"
| "sgr_params (c # cs) =
     (if c = 109 then Some 0
      else if is_digit c \<or> c = 59 then map_option Suc (sgr_params cs)
      else None)"

fun strip_ansi :: "str \<Rightarrow> str" where
  "strip_ansi [] = []"
| "strip_ansi (c # cs) =
     (case (if c = ESC \<and> take 1 cs = [91] then sgr_params (drop 1 cs) else None) of
        Some n \<Rightarrow> strip_ansi (drop (n + 2) cs)
      | None \<Rightarrow> c # strip_ansi cs)"

text \<open>The text of the loc column of a row: \<open>str(loc) if loc is not None else "-"\<close>.\<close>

definition loc_text :: "int option \<Rightarrow> str" where
  "loc_text lc = (case lc of Some n \<Rightarrow> py_str n | None \<Rightarrow> dash)"

text \<open>The node a sequence of path segments leads to, from \<open>node\<close> downwards.\<close>

fun node_at :: "str list \<Rightarrow> TreeNode \<Rightarrow> TreeNode option" where
  "node_at [] node = Some node"
| "node_at (part # rest) node =
     (case map_of (children node) part of
        None \<Rightarrow> None
      | Some child \<Rightarrow> node_at rest child)"

section \<open>Properties\<close>

subsection \<open>Strings\<close>

lemma py_split_nonempty: "py_split sep s \<noteq> []"
  by (induction s) (auto split: list.splits)

lemma py_strip_eq_Nil_iff: "py_strip s = [] \<longleftrightarrow> (\<forall>c\<in>set s. py_isspace c)"
proof
  assume h: "py_strip s = []"
  then have a: "\<forall>x\<in>set (dropWhile py_isspace s). py_isspace x"
    by (simp add: py_strip_def dropWhile_eq_Nil_conv)
  have "dropWhile py_isspace s = []"
  proof (rule ccontr)
    assume n: "dropWhile py_isspace s \<noteq> []"
    then have "\<not> py_isspace (hd (dropWhile py_isspace s))" by (rule hd_dropWhile)
    moreover have "hd (dropWhile py_isspace s) \<in> set (dropWhile py_isspace s)" using n by simp
    ultimately show False using a by blast
  qed
  then show "\<forall>c\<in>set s. py_isspace c" by (simp add: dropWhile_eq_Nil_conv)
next
  assume "\<forall>c\<in>set s. py_isspace c"
  then have "\<forall>x\<in>set (dropWhile py_isspace s). py_isspace x"
    by (meson set_dropWhileD)
  then show "py_strip s = []" by (simp add: py_strip_def)
qed

lemma strip_both_id:
  assumes "s \<noteq> []" "\<not> P (hd s)" "\<not> P (last s)"
  shows "rev (dropWhile P (rev (dropWhile P s))) = s"
proof -
  have 1: "dropWhile P s = s" using assms by (cases s) auto
  have 2: "dropWhile P (rev s) = rev s"
    using assms by (cases "rev s") (auto simp: last_rev hd_rev)
  show ?thesis by (simp add: 1 2)
qed

lemma py_strip_id:
  assumes "s \<noteq> []" "\<not> py_isspace (hd s)" "\<not> py_isspace (last s)"
  shows "py_strip s = s"
  unfolding py_strip_def using assms by (rule strip_both_id)

lemma int_strip_id:
  assumes "s \<noteq> []" "\<not> int_isspace (hd s)" "\<not> int_isspace (last s)"
  shows "int_strip s = s"
  unfolding int_strip_def using assms by (rule strip_both_id)

lemma py_split_single_notin: "c \<notin> set a \<Longrightarrow> py_split [c] a = [a]"
  by (induction a) auto

lemma py_split_single_append:
  "py_split [c] (a @ c # b) = py_split [c] a @ py_split [c] b"
proof (induction a)
  case Nil
  show ?case by simp
next
  case (Cons x a)
  obtain y ys where s: "py_split [c] a = y # ys"
    using py_split_nonempty by (cases "py_split [c] a") auto
  show ?case using Cons s by auto
qed

lemma py_split_unsplit: "\<not> sublist sep s \<Longrightarrow> py_split sep s = [s]"
proof (induction s)
  case Nil show ?case by simp
next
  case (Cons c cs)
  then have "\<not> prefix sep (c # cs)" "\<not> sublist sep cs" by (auto simp: sublist_Cons_right)
  then show ?case using Cons by simp
qed

text \<open>The first cut of \<open>split\<close> is at the first occurrence of the separator.\<close>

lemma py_split_first:
  assumes "sep \<noteq> []"
  shows "\<not> sublist sep (a @ butlast sep) \<Longrightarrow> py_split sep (a @ sep @ b) = a # py_split sep b"
proof (induction a)
  case Nil
  obtain x xs where "sep @ b = x # xs" using assms by (cases sep) auto
  then show ?case using assms by (cases sep) auto
next
  case (Cons x a)
  have np: "\<not> prefix sep (x # a @ sep @ b)"
  proof
    assume p: "prefix sep (x # a @ sep @ b)"
    have "x # a @ sep @ b = ((x # a) @ butlast sep) @ (last sep # b)" using assms by simp
    moreover have "length sep \<le> length ((x # a) @ butlast sep)" by simp
    ultimately have "prefix sep ((x # a) @ butlast sep)" using p
      by (metis prefix_length_prefix prefixI)
    then show False using Cons.prems by (auto dest: prefix_imp_sublist simp del: append.simps)
  qed
  have "\<not> sublist sep (a @ butlast sep)" using Cons.prems by (auto simp: sublist_Cons_right)
  then have "py_split sep (a @ sep @ b) = a # py_split sep b" by (rule Cons.IH)
  then show ?case using np by simp
qed

lemma sublist_first:
  assumes "sep \<noteq> []"
  shows "sublist sep q \<Longrightarrow> \<exists>lhs rhs. q = lhs @ sep @ rhs \<and> \<not> sublist sep (lhs @ butlast sep)"
proof (induction q)
  case Nil then show ?case using assms by simp
next
  case (Cons x q)
  show ?case
  proof (cases "prefix sep (x # q)")
    case True
    then obtain r where "x # q = [] @ sep @ r" by (auto simp: prefix_def)
    moreover have "\<not> sublist sep ([] @ butlast sep)"
      using assms
      by (metis append_Nil sublist_length_le length_butlast diff_less length_greater_0_conv
          less_numeral_extra(1) not_le)
    ultimately show ?thesis by blast
  next
    case False
    then have "sublist sep q" using Cons.prems by (simp add: sublist_Cons_right)
    then obtain l r where lr: "q = l @ sep @ r" "\<not> sublist sep (l @ butlast sep)"
      using Cons.IH by blast
    have "\<not> prefix sep ((x # l) @ butlast sep)"
    proof
      assume "prefix sep ((x # l) @ butlast sep)"
      then have "prefix sep (((x # l) @ butlast sep) @ (last sep # r))"
        using prefix_prefix by blast
      moreover have "((x # l) @ butlast sep) @ (last sep # r) = x # l @ sep @ r"
        using assms by (metis append_butlast_last_id append_Cons append_Nil append_assoc)
      ultimately have "prefix sep (x # l @ sep @ r)" by (simp only:)
      then show False using False lr(1) by simp
    qed
    then have "\<not> sublist sep ((x # l) @ butlast sep)" using lr(2) by (simp add: sublist_Cons_right)
    moreover have "x # q = (x # l) @ sep @ r" using lr(1) by simp
    ultimately show ?thesis by blast
  qed
qed

subsection \<open>Numbers and the parsing loop\<close>

lemma is_digit_digits: "\<forall>c\<in>set (digits n). is_digit c"
proof (induction n rule: digits.induct)
  case (1 n)
  show ?case
  proof (cases "n < 10")
    case True then show ?thesis by (simp add: digits.simps[of n] is_digit_def)
  next
    case False
    have "n mod 10 < 10" by simp
    then have "is_digit (48 + n mod 10)" unfolding is_digit_def by linarith
    then show ?thesis using 1 False by (simp add: digits.simps[of n])
  qed
qed

lemma digits_nonempty: "digits n \<noteq> []"
  by (simp add: digits.simps[of n])

lemma py_digits_snoc:
  "xs \<noteq> [] \<Longrightarrow> \<forall>x\<in>set xs. is_digit x \<Longrightarrow> is_digit c \<Longrightarrow>
   py_digits (xs @ [c]) acc = map_option (\<lambda>m. 10 * m + (c - 48)) (py_digits xs acc)"
proof (induction xs acc rule: py_digits.induct)
  case (1 acc) then show ?case by simp
next
  case (2 x acc)
  then show ?case by (auto simp: is_digit_def UNDERSCORE_def)
next
  case (3 x y ys acc)
  then show ?case by (auto simp: is_digit_def UNDERSCORE_def)
qed

lemma py_digits_digits: "py_digits (digits n) 0 = Some n"
proof (induction n rule: digits.induct)
  case (1 n)
  show ?case
  proof (cases "n < 10")
    case True then show ?thesis by (simp add: digits.simps[of n] is_digit_def)
  next
    case False
    have "n mod 10 < 10" by simp
    then have d: "is_digit (48 + n mod 10)" unfolding is_digit_def by linarith
    have "py_digits (digits (n div 10) @ [48 + n mod 10]) 0
          = map_option (\<lambda>m. 10 * m + (48 + n mod 10 - 48)) (py_digits (digits (n div 10)) 0)"
      using digits_nonempty is_digit_digits d by (rule py_digits_snoc)
    then show ?thesis using 1 False by (simp add: digits.simps[of n])
  qed
qed

lemma is_digit_not_space: "is_digit c \<Longrightarrow> \<not> int_isspace c"
  by (auto simp: is_digit_def int_isspace_def py_isspace_def)

lemma int_strip_digits: "int_strip (digits n) = digits n"
proof (rule int_strip_id)
  show "digits n \<noteq> []" by (rule digits_nonempty)
  have "hd (digits n) \<in> set (digits n)" "last (digits n) \<in> set (digits n)"
    using digits_nonempty by simp_all
  then show "\<not> int_isspace (hd (digits n))" "\<not> int_isspace (last (digits n))"
    using is_digit_digits is_digit_not_space by blast+
qed

lemma int_strip_minus_digits: "int_strip (MINUS # digits n) = MINUS # digits n"
proof (rule int_strip_id)
  show "MINUS # digits n \<noteq> []" by simp
  show "\<not> int_isspace (hd (MINUS # digits n))"
    by (simp add: MINUS_def int_isspace_def py_isspace_def)
  have "last (digits n) \<in> set (digits n)" using digits_nonempty by simp
  then have "\<not> int_isspace (last (digits n))" using is_digit_digits is_digit_not_space by blast
  then show "\<not> int_isspace (last (MINUS # digits n))" using digits_nonempty by simp
qed

text \<open>The separators U+001C to U+001F are not whitespace for \<open>int()\<close>; other whitespace
  is.\<close>

lemma py_int_separator: "py_int [55, 28] = Inl ValueError" "py_int [31, 55] = Inl ValueError"
  by (simp_all add: py_int_def int_strip_def int_isspace_def py_isspace_def is_digit_def
      MINUS_def PLUS_def)

lemma py_int_whitespace: "py_int [32, 55, 133] = Inr 7"
  by (simp add: py_int_def int_strip_def int_isspace_def py_isspace_def is_digit_def
      MINUS_def PLUS_def)

text \<open>\<open>int(str(i)) == i\<close>.\<close>

lemma py_int_py_str: "py_int (py_str i) = Inr i"
proof (cases "i < 0")
  case True
  then show ?thesis
    by (simp add: py_int_def py_str_def int_strip_minus_digits py_digits_digits)
next
  case False
  obtain c r where cr: "digits (nat i) = c # r" using digits_nonempty by (cases "digits (nat i)") auto
  then have "is_digit c" using is_digit_digits[of "nat i"] by simp
  then have "c \<noteq> MINUS" "c \<noteq> PLUS" by (auto simp: is_digit_def MINUS_def PLUS_def)
  moreover have "py_digits (c # r) 0 = Some (nat i)" using py_digits_digits[of "nat i"] cr by simp
  moreover have "int_strip (c # r) = c # r" using int_strip_digits[of "nat i"] cr by simp
  ultimately show ?thesis using False cr
    by (simp add: py_int_def py_str_def)
qed

lemma py_str_not_dash: "py_str i \<noteq> dash"
proof (cases "i < 0")
  case True
  then show ?thesis using digits_nonempty by (simp add: py_str_def dash_def lit_def)
next
  case False
  have "\<not> is_digit 45" by (simp add: is_digit_def)
  then have "45 \<notin> set (digits (nat i))" using is_digit_digits[of "nat i"] by blast
  then have "digits (nat i) \<noteq> [45]" by auto
  then show ?thesis using False by (simp add: py_str_def dash_def lit_def)
qed

lemma parse_lines_append:
  "parse_lines (xs @ ys) acc =
     (case parse_lines xs acc of Inl e \<Rightarrow> Inl e | Inr acc' \<Rightarrow> parse_lines ys acc')"
  by (induction xs acc rule: parse_lines.induct) (auto split: list.splits sum.splits)

lemma parse_lines_step:
  "(\<exists>e. parse_lines (l # rest) acc = Inl e)
   \<or> parse_lines (l # rest) acc = parse_lines rest acc
   \<or> (\<exists>r. parse_lines (l # rest) acc = parse_lines rest (acc @ [r]))"
  by (auto split: list.splits sum.splits)

lemma parse_lines_prefix:
  "parse_lines xs acc = Inr res \<Longrightarrow> \<exists>ys. res = acc @ ys"
proof (induction xs arbitrary: acc)
  case Nil
  then show ?case by simp
next
  case (Cons l rest)
  consider e where "parse_lines (l # rest) acc = Inl e"
    | "parse_lines (l # rest) acc = parse_lines rest acc"
    | r where "parse_lines (l # rest) acc = parse_lines rest (acc @ [r])"
    using parse_lines_step[of l rest acc] by blast
  then show ?case
  proof cases
    case 1 then show ?thesis using Cons.prems by simp
  next
    case 2 then show ?thesis using Cons by metis
  next
    case 3
    then have "parse_lines rest (acc @ [r]) = Inr res" using Cons.prems by simp
    then obtain ys where "res = (acc @ [r]) @ ys" using Cons.IH by blast
    then show ?thesis by simp
  qed
qed

lemma parse_lines_short:
  "length (py_split [TAB] l) < 3 \<Longrightarrow> parse_lines (l # rest) acc = parse_lines rest acc"
  by (auto split: list.splits)

lemma parse_lines_record:
  assumes "py_split [TAB] l = f0 # f1 # p # others"
    and "(if f0 \<noteq> dash then py_int f0 else Inr 0) = Inr a"
    and "(if f1 \<noteq> dash then py_int f1 else Inr 0) = Inr b"
    and "rename_path p = Inr q"
  shows "parse_lines (l # rest) acc =
         parse_lines rest (acc @ [\<lparr>path = q, insertions = a, deletions = b, loc = None\<rparr>])"
proof -
  have "l \<noteq> []" using assms(1) by auto
  then show ?thesis using assms by simp
qed


subsection \<open>The numstat parser\<close>

lemma rename_path_no_arrow: "\<not> sublist arrow p \<Longrightarrow> rename_path p = Inr p"
  by (simp add: rename_path_def)

lemma arrow_nonempty: "arrow \<noteq> []"
  by (simp add: arrow_def lit_def)

lemma rename_path_arrow:
  assumes "sublist arrow p"
    and "py_remove RBRACE (py_remove LBRACE p) = lhs @ arrow @ rhs"
    and "\<not> sublist arrow (lhs @ butlast arrow)"
  shows "rename_path p = Inr (hd (py_split arrow rhs))"
proof -
  let ?q = "py_remove RBRACE (py_remove LBRACE p)"
  have q: "sublist arrow ?q" using assms(2) by (metis sublist_appendI)
  have "py_split arrow ?q = lhs # py_split arrow rhs"
    using py_split_first[OF arrow_nonempty assms(3)] assms(2) by simp
  moreover obtain x xs where "py_split arrow rhs = x # xs"
    using py_split_nonempty[of arrow rhs] by (cases "py_split arrow rhs") auto
  ultimately show ?thesis using assms(1) q by (simp add: rename_path_def Let_def)
qed

lemma rename_path_total: "\<exists>q. rename_path p = Inr q"
proof (cases "sublist arrow p \<and> sublist arrow (py_remove RBRACE (py_remove LBRACE p))")
  case True
  then obtain l r where "py_remove RBRACE (py_remove LBRACE p) = l @ arrow @ r"
      "\<not> sublist arrow (l @ butlast arrow)"
    using sublist_first[OF arrow_nonempty] by blast
  then show ?thesis using rename_path_arrow True by blast
next
  case False
  then show ?thesis by (auto simp: rename_path_def Let_def)
qed

lemma parse_numstat_lines:
  "parse_numstat output = parse_lines (py_split [NEWLINE] (py_strip output)) []"
proof (cases "py_strip output = []")
  case True
  then show ?thesis by (simp add: parse_numstat_def)
next
  case False
  then have "output \<noteq> []" by (auto simp: py_strip_def)
  then show ?thesis using False by (simp add: parse_numstat_def)
qed

lemma parse_numstat_at_line:
  assumes "py_split [NEWLINE] (py_strip output) = before @ line # after"
    and "parse_lines before [] = Inr acc"
  shows "parse_numstat output = parse_lines (line # after) acc"
  using assms by (simp add: parse_numstat_lines parse_lines_append)

lemmas eval_defs = lit_def TAB_def NEWLINE_def SPACE_def SLASH_def MINUS_def PLUS_def
  UNDERSCORE_def LBRACE_def RBRACE_def ESC_def py_strip_def py_isspace_def dash_def
  py_int_def int_strip_def int_isspace_def is_digit_def rename_path_def arrow_def
  py_remove_def parse_numstat_def sublist_code Let_def

lemma parse_numstat_without_line:
  assumes "a \<noteq> []" "\<not> py_isspace (hd a)" "b \<noteq> []" "\<not> py_isspace (last b)"
    and "NEWLINE \<notin> set line" "length (py_split [TAB] line) < 3"
  shows "parse_numstat (a @ NEWLINE # line @ NEWLINE # b) = parse_numstat (a @ NEWLINE # b)"
proof -
  have s1: "py_strip (a @ NEWLINE # line @ NEWLINE # b) = a @ NEWLINE # line @ NEWLINE # b"
    using assms(1-4) by (intro py_strip_id) simp_all
  have s2: "py_strip (a @ NEWLINE # b) = a @ NEWLINE # b"
    using assms(1-4) by (intro py_strip_id) simp_all
  have "py_split [NEWLINE] (a @ NEWLINE # line @ NEWLINE # b)
        = py_split [NEWLINE] a @ py_split [NEWLINE] line @ py_split [NEWLINE] b"
    by (simp only: py_split_single_append)
  then have l1: "py_split [NEWLINE] (a @ NEWLINE # line @ NEWLINE # b)
        = py_split [NEWLINE] a @ line # py_split [NEWLINE] b"
    using assms(5) by (simp add: py_split_single_notin)
  have l2: "py_split [NEWLINE] (a @ NEWLINE # b) = py_split [NEWLINE] a @ py_split [NEWLINE] b"
    by (simp only: py_split_single_append)
  have "parse_lines (line # py_split [NEWLINE] b) acc = parse_lines (py_split [NEWLINE] b) acc"
    for acc
    using assms(6) by (rule parse_lines_short)
  then have "parse_lines (py_split [NEWLINE] a @ line # py_split [NEWLINE] b) []
             = parse_lines (py_split [NEWLINE] a @ py_split [NEWLINE] b) []"
    by (simp only: parse_lines_append[of "py_split [NEWLINE] a"])
  then show ?thesis by (simp only: parse_numstat_lines s1 s2 l1 l2)
qed

text \<open>
  Claim C7. \<open>parse_numstat\<close> returns the empty list for an input that is empty or made of
  whitespace only. A line with fewer than three tab-separated fields is dropped without an
  error: the call returns what the loop returns on the other lines, in their order; one
  step of the loop on such a line leaves the list of changes as it was; and an output with
  such a line between two others gives what the output without that line gives.
\<close>

theorem C7_blank_input_and_short_lines:
  "((\<forall>c\<in>set output. py_isspace c) \<longrightarrow> parse_numstat output = Inr [])
   \<and> (py_split [NEWLINE] (py_strip output) = before @ line # after
        \<and> length (py_split [TAB] line) < 3
      \<longrightarrow> parse_numstat output = parse_lines (before @ after) [])
   \<and> (length (py_split [TAB] line) < 3
      \<longrightarrow> parse_lines (line # rest) changes = parse_lines rest changes)
   \<and> (a \<noteq> [] \<and> \<not> py_isspace (hd a) \<and> b \<noteq> [] \<and> \<not> py_isspace (last b)
        \<and> NEWLINE \<notin> set line \<and> length (py_split [TAB] line) < 3
      \<longrightarrow> parse_numstat (a @ NEWLINE # line @ NEWLINE # b) = parse_numstat (a @ NEWLINE # b))"
proof (intro conjI impI)
  assume "\<forall>c\<in>set output. py_isspace c"
  then have "py_strip output = []" by (simp add: py_strip_eq_Nil_iff)
  then show "parse_numstat output = Inr []" by (simp add: parse_numstat_def)
next
  assume h: "py_split [NEWLINE] (py_strip output) = before @ line # after
             \<and> length (py_split [TAB] line) < 3"
  then have "parse_lines (line # after) acc = parse_lines after acc" for acc
    using parse_lines_short by blast
  then have "parse_lines (before @ line # after) [] = parse_lines (before @ after) []"
    by (simp only: parse_lines_append[of before])
  then show "parse_numstat output = parse_lines (before @ after) []"
    using h by (simp only: parse_numstat_lines)
next
  assume "length (py_split [TAB] line) < 3"
  then show "parse_lines (line # rest) changes = parse_lines rest changes"
    by (rule parse_lines_short)
next
  assume "a \<noteq> [] \<and> \<not> py_isspace (hd a) \<and> b \<noteq> [] \<and> \<not> py_isspace (last b)
        \<and> NEWLINE \<notin> set line \<and> length (py_split [TAB] line) < 3"
  then show "parse_numstat (a @ NEWLINE # line @ NEWLINE # b) = parse_numstat (a @ NEWLINE # b)"
    by (intro parse_numstat_without_line) simp_all
qed

theorem C7_witness:
  "list_all py_isspace (lit ''   '' @ [NEWLINE] @ lit ''  '')
   \<and> parse_numstat (lit ''   '' @ [NEWLINE] @ lit ''  '') = Inr []
   \<and> parse_numstat [] = Inr []
   \<and> py_split [NEWLINE] (py_strip (lit ''1'' @ [TAB] @ lit ''2'' @ [TAB] @ lit ''a'' @ [NEWLINE]
          @ lit ''junk'' @ [TAB] @ lit ''x'' @ [NEWLINE] @ lit ''-'' @ [TAB] @ lit ''-'' @ [TAB] @ lit ''b''))
       = [lit ''1'' @ [TAB] @ lit ''2'' @ [TAB] @ lit ''a''] @ (lit ''junk'' @ [TAB] @ lit ''x'')
           # [lit ''-'' @ [TAB] @ lit ''-'' @ [TAB] @ lit ''b'']
   \<and> length (py_split [TAB] (lit ''junk'' @ [TAB] @ lit ''x'')) < 3
   \<and> parse_numstat (lit ''1'' @ [TAB] @ lit ''2'' @ [TAB] @ lit ''a'' @ [NEWLINE]
          @ lit ''junk'' @ [TAB] @ lit ''x'' @ [NEWLINE] @ lit ''-'' @ [TAB] @ lit ''-'' @ [TAB] @ lit ''b'')
       = Inr [\<lparr>path = lit ''a'', insertions = 1, deletions = 2, loc = None\<rparr>,
              \<lparr>path = lit ''b'', insertions = 0, deletions = 0, loc = None\<rparr>]
   \<and> parse_numstat ((lit ''1'' @ [TAB] @ lit ''2'' @ [TAB] @ lit ''a'') @ NEWLINE
          # (lit ''junk'' @ [TAB] @ lit ''x'') @ NEWLINE # (lit ''-'' @ [TAB] @ lit ''-'' @ [TAB] @ lit ''b''))
       = parse_numstat ((lit ''1'' @ [TAB] @ lit ''2'' @ [TAB] @ lit ''a'') @ NEWLINE
          # (lit ''-'' @ [TAB] @ lit ''-'' @ [TAB] @ lit ''b''))"
proof -
  let ?out = "lit ''1'' @ [TAB] @ lit ''2'' @ [TAB] @ lit ''a'' @ [NEWLINE]
          @ lit ''junk'' @ [TAB] @ lit ''x'' @ [NEWLINE] @ lit ''-'' @ [TAB] @ lit ''-'' @ [TAB] @ lit ''b''"
  have h1: "\<forall>c\<in>set (lit ''   '' @ [NEWLINE] @ lit ''  ''). py_isspace c"
    by (simp add: eval_defs)
  have h0: "\<forall>c\<in>set ([]::str). py_isspace c" by simp
  have h2: "py_split [NEWLINE] (py_strip ?out)
       = [lit ''1'' @ [TAB] @ lit ''2'' @ [TAB] @ lit ''a''] @ (lit ''junk'' @ [TAB] @ lit ''x'')
           # [lit ''-'' @ [TAB] @ lit ''-'' @ [TAB] @ lit ''b'']"
    by (simp add: eval_defs)
  have h3: "length (py_split [TAB] (lit ''junk'' @ [TAB] @ lit ''x'')) < 3"
    by (simp add: eval_defs)
  have r: "parse_lines ([lit ''1'' @ [TAB] @ lit ''2'' @ [TAB] @ lit ''a'']
              @ [lit ''-'' @ [TAB] @ lit ''-'' @ [TAB] @ lit ''b'']) []
       = Inr [\<lparr>path = lit ''a'', insertions = 1, deletions = 2, loc = None\<rparr>,
              \<lparr>path = lit ''b'', insertions = 0, deletions = 0, loc = None\<rparr>]"
    by (simp add: eval_defs)
  note t = C7_blank_input_and_short_lines
  from t[of "lit ''   '' @ [NEWLINE] @ lit ''  ''"] h1
  have a: "parse_numstat (lit ''   '' @ [NEWLINE] @ lit ''  '') = Inr []" by blast
  from t[of "[]"] h0 have b: "parse_numstat [] = Inr []" by blast
  from t[of ?out "[lit ''1'' @ [TAB] @ lit ''2'' @ [TAB] @ lit ''a'']" "lit ''junk'' @ [TAB] @ lit ''x''"
          "[lit ''-'' @ [TAB] @ lit ''-'' @ [TAB] @ lit ''b'']"] h2 h3
  have c: "parse_numstat ?out = parse_lines ([lit ''1'' @ [TAB] @ lit ''2'' @ [TAB] @ lit ''a'']
              @ [lit ''-'' @ [TAB] @ lit ''-'' @ [TAB] @ lit ''b'']) []" by blast
  have h1': "list_all py_isspace (lit ''   '' @ [NEWLINE] @ lit ''  '')"
    using h1 by (simp only: list_all_iff)
  have h4: "lit ''1'' @ [TAB] @ lit ''2'' @ [TAB] @ lit ''a'' \<noteq> []
      \<and> \<not> py_isspace (hd (lit ''1'' @ [TAB] @ lit ''2'' @ [TAB] @ lit ''a''))
      \<and> lit ''-'' @ [TAB] @ lit ''-'' @ [TAB] @ lit ''b'' \<noteq> []
      \<and> \<not> py_isspace (last (lit ''-'' @ [TAB] @ lit ''-'' @ [TAB] @ lit ''b''))
      \<and> NEWLINE \<notin> set (lit ''junk'' @ [TAB] @ lit ''x'')"
    by (simp add: eval_defs)
  from t[where line = "lit ''junk'' @ [TAB] @ lit ''x''"
           and a = "lit ''1'' @ [TAB] @ lit ''2'' @ [TAB] @ lit ''a''"
           and b = "lit ''-'' @ [TAB] @ lit ''-'' @ [TAB] @ lit ''b''"] h3 h4
  have d: "parse_numstat ((lit ''1'' @ [TAB] @ lit ''2'' @ [TAB] @ lit ''a'') @ NEWLINE
          # (lit ''junk'' @ [TAB] @ lit ''x'') @ NEWLINE # (lit ''-'' @ [TAB] @ lit ''-'' @ [TAB] @ lit ''b''))
       = parse_numstat ((lit ''1'' @ [TAB] @ lit ''2'' @ [TAB] @ lit ''a'') @ NEWLINE
          # (lit ''-'' @ [TAB] @ lit ''-'' @ [TAB] @ lit ''b''))"
    by blast
  show ?thesis using h1' a b h2 h3 c r d by (simp only: simp_thms)
qed

lemma parse_numstat_record:
  assumes "py_split [NEWLINE] (py_strip output) = before @ line # after"
    and "py_split [TAB] line = f0 # f1 # p # others"
    and "parse_lines before [] = Inr acc"
    and "(if f0 \<noteq> dash then py_int f0 else Inr 0) = Inr a"
    and "(if f1 \<noteq> dash then py_int f1 else Inr 0) = Inr b"
    and "rename_path p = Inr q"
  shows "parse_numstat output =
         parse_lines after (acc @ [\<lparr>path = q, insertions = a, deletions = b, loc = None\<rparr>])"
proof -
  have "parse_numstat output = parse_lines (line # after) acc"
    using assms(1,3) by (rule parse_numstat_at_line)
  also have "\<dots> = parse_lines after (acc @ [\<lparr>path = q, insertions = a, deletions = b, loc = None\<rparr>])"
    using assms(2,4,5,6) by (rule parse_lines_record)
  finally show ?thesis .
qed

lemma py_remove_notin: "c \<notin> set s \<Longrightarrow> py_remove c s = s"
  by (auto simp: py_remove_def filter_id_conv)

lemma py_remove_Cons:
  "py_remove c (d # s) = (if d = c then py_remove c s else d # py_remove c s)"
  by (simp add: py_remove_def)

lemma py_remove_append: "py_remove c (s @ t) = py_remove c s @ py_remove c t"
  by (simp add: py_remove_def)

lemma py_remove_arrow: "py_remove LBRACE arrow = arrow" "py_remove RBRACE arrow = arrow"
  by (simp_all add: py_remove_def arrow_def lit_def LBRACE_def RBRACE_def)

text \<open>
  What the rename handling does. For a line whose path field \<open>p\<close> contains \<open>" => "\<close>, the
  record's path is taken from the field with the braces removed: it is the text to the
  right of the first arrow (cut at a second arrow, should there be one). So a field that
  is the brace group followed by a suffix, \<open>{old => new}sfx\<close>, gives \<open>new\<close> followed by
  \<open>sfx\<close>, and a field \<open>oldfull => newfull\<close> without braces gives \<open>newfull\<close>. The line is any
  line of the stripped output with at least three fields whose two numeric fields are
  accepted; \<open>acc\<close> are the records of the lines before it.
\<close>

lemma rename_right_of_first_arrow:
  assumes "py_split [NEWLINE] (py_strip output) = before @ line # after"
    and "py_split [TAB] line = f0 # f1 # p # others"
    and "parse_lines before [] = Inr acc"
    and "(if f0 \<noteq> dash then py_int f0 else Inr 0) = Inr a"
    and "(if f1 \<noteq> dash then py_int f1 else Inr 0) = Inr b"
    and "sublist arrow p"
  shows
    "let stripped = py_remove RBRACE (py_remove LBRACE p);
         gives = (\<lambda>new_path. parse_numstat output =
                    parse_lines after
                      (acc @ [\<lparr>path = new_path, insertions = a, deletions = b, loc = None\<rparr>]))
     in (\<exists>lhs rhs. stripped = lhs @ arrow @ rhs \<and> \<not> sublist arrow (lhs @ butlast arrow))
        \<and> (stripped = lhs @ arrow @ rhs \<and> \<not> sublist arrow (lhs @ butlast arrow)
             \<longrightarrow> gives (hd (py_split arrow rhs)) \<and> (\<not> sublist arrow rhs \<longrightarrow> gives rhs))
        \<and> (p = LBRACE # old @ arrow @ new @ RBRACE # sfx
             \<and> LBRACE \<notin> set (old @ new @ sfx) \<and> RBRACE \<notin> set (old @ new @ sfx)
             \<and> \<not> sublist arrow (old @ butlast arrow) \<and> \<not> sublist arrow (new @ sfx)
             \<longrightarrow> gives (new @ sfx))
        \<and> (p = oldfull @ arrow @ newfull
             \<and> LBRACE \<notin> set (oldfull @ newfull) \<and> RBRACE \<notin> set (oldfull @ newfull)
             \<and> \<not> sublist arrow (oldfull @ butlast arrow) \<and> \<not> sublist arrow newfull
             \<longrightarrow> gives newfull)"
proof -
  let ?q = "py_remove RBRACE (py_remove LBRACE p)"
  let ?gives = "\<lambda>new_path. parse_numstat output =
                    parse_lines after
                      (acc @ [\<lparr>path = new_path, insertions = a, deletions = b, loc = None\<rparr>])"
  have general: "?gives (hd (py_split arrow r))"
    if "?q = l @ arrow @ r" "\<not> sublist arrow (l @ butlast arrow)" for l r
    using assms(1-5) rename_path_arrow[OF assms(6) that] by (rule parse_numstat_record)
  have single: "?gives r"
    if "?q = l @ arrow @ r" "\<not> sublist arrow (l @ butlast arrow)" "\<not> sublist arrow r" for l r
    using general[OF that(1,2)] py_split_unsplit[OF that(3)] by simp
  have ex: "\<exists>lhs rhs. ?q = lhs @ arrow @ rhs \<and> \<not> sublist arrow (lhs @ butlast arrow)"
  proof -
    obtain u v where "p = u @ arrow @ v" using assms(6) by (auto simp: sublist_def)
    then have "?q = py_remove RBRACE (py_remove LBRACE u) @ arrow
                    @ py_remove RBRACE (py_remove LBRACE v)"
      by (simp add: py_remove_append py_remove_arrow)
    then have "sublist arrow ?q" by (metis sublist_appendI)
    then show ?thesis using sublist_first[OF arrow_nonempty] by blast
  qed
  have brace: "?gives (new @ sfx)"
    if "p = LBRACE # old @ arrow @ new @ RBRACE # sfx"
       "LBRACE \<notin> set (old @ new @ sfx)" "RBRACE \<notin> set (old @ new @ sfx)"
       "\<not> sublist arrow (old @ butlast arrow)" "\<not> sublist arrow (new @ sfx)"
  proof -
    have "LBRACE \<noteq> RBRACE" by (simp add: LBRACE_def RBRACE_def)
    then have "?q = old @ arrow @ (new @ sfx)"
      using that(1,2,3)
      by (simp add: py_remove_append py_remove_arrow py_remove_notin py_remove_Cons)
    then show ?thesis using that(4,5) by (rule single)
  qed
  have dual: "?gives newfull"
    if "p = oldfull @ arrow @ newfull"
       "LBRACE \<notin> set (oldfull @ newfull)" "RBRACE \<notin> set (oldfull @ newfull)"
       "\<not> sublist arrow (oldfull @ butlast arrow)" "\<not> sublist arrow newfull"
  proof -
    have "?q = oldfull @ arrow @ newfull"
      using that(1,2,3) by (simp add: py_remove_append py_remove_arrow py_remove_notin)
    then show ?thesis using that(4,5) by (rule single)
  qed
  show ?thesis
    unfolding Let_def using ex general single brace dual by blast
qed

lemma rename_forms_evaluated:
  "py_split [NEWLINE] (py_strip
      (lit ''5'' @ [TAB] @ lit ''3'' @ [TAB] @ lit ''{old => new}/file.py'' @ [NEWLINE]
       @ lit ''1'' @ [TAB] @ lit ''-'' @ [TAB] @ lit ''a.txt => b.txt''))
     = [lit ''5'' @ [TAB] @ lit ''3'' @ [TAB] @ lit ''{old => new}/file.py'',
        lit ''1'' @ [TAB] @ lit ''-'' @ [TAB] @ lit ''a.txt => b.txt'']
   \<and> sublist arrow (lit ''{old => new}/file.py'')
   \<and> sublist arrow (lit ''a.txt => b.txt'')
   \<and> parse_numstat
      (lit ''5'' @ [TAB] @ lit ''3'' @ [TAB] @ lit ''{old => new}/file.py'' @ [NEWLINE]
       @ lit ''1'' @ [TAB] @ lit ''-'' @ [TAB] @ lit ''a.txt => b.txt'')
     = Inr [\<lparr>path = lit ''new/file.py'', insertions = 5, deletions = 3, loc = None\<rparr>,
            \<lparr>path = lit ''b.txt'', insertions = 1, deletions = 0, loc = None\<rparr>]"
proof -
  let ?l1 = "lit ''5'' @ [TAB] @ lit ''3'' @ [TAB] @ lit ''{old => new}/file.py''"
  let ?l2 = "lit ''1'' @ [TAB] @ lit ''-'' @ [TAB] @ lit ''a.txt => b.txt''"
  let ?out = "lit ''5'' @ [TAB] @ lit ''3'' @ [TAB] @ lit ''{old => new}/file.py'' @ [NEWLINE]
       @ lit ''1'' @ [TAB] @ lit ''-'' @ [TAB] @ lit ''a.txt => b.txt''"
  let ?r1 = "\<lparr>path = lit ''new/file.py'', insertions = 5, deletions = 3, loc = None\<rparr>"
  have lines: "py_split [NEWLINE] (py_strip ?out) = [?l1, ?l2]"
    by (simp add: eval_defs)
  have lines1: "py_split [NEWLINE] (py_strip ?out) = [] @ ?l1 # [?l2]"
    using lines by simp
  have lines2: "py_split [NEWLINE] (py_strip ?out) = [?l1] @ ?l2 # []"
    using lines by simp
  have f1: "py_split [TAB] ?l1 = lit ''5'' # lit ''3'' # lit ''{old => new}/file.py'' # []"
    by (simp add: eval_defs)
  have f2: "py_split [TAB] ?l2 = lit ''1'' # lit ''-'' # lit ''a.txt => b.txt'' # []"
    by (simp add: eval_defs)
  have acc1: "parse_lines [] [] = Inr []" by simp
  have acc2: "parse_lines [?l1] [] = Inr [?r1]" by (simp add: eval_defs)
  have n5: "(if lit ''5'' \<noteq> dash then py_int (lit ''5'') else Inr 0) = Inr 5"
    by (simp add: eval_defs)
  have n3: "(if lit ''3'' \<noteq> dash then py_int (lit ''3'') else Inr 0) = Inr 3"
    by (simp add: eval_defs)
  have n1: "(if lit ''1'' \<noteq> dash then py_int (lit ''1'') else Inr 0) = Inr 1"
    by (simp add: eval_defs)
  have n0: "(if lit ''-'' \<noteq> dash then py_int (lit ''-'') else Inr 0) = Inr 0"
    by (simp add: eval_defs)
  have a1: "sublist arrow (lit ''{old => new}/file.py'')" by (simp add: eval_defs)
  have a2: "sublist arrow (lit ''a.txt => b.txt'')" by (simp add: eval_defs)
  have brace: "lit ''{old => new}/file.py''
                 = LBRACE # lit ''old'' @ arrow @ lit ''new'' @ RBRACE # lit ''/file.py''
       \<and> LBRACE \<notin> set (lit ''old'' @ lit ''new'' @ lit ''/file.py'')
       \<and> RBRACE \<notin> set (lit ''old'' @ lit ''new'' @ lit ''/file.py'')
       \<and> \<not> sublist arrow (lit ''old'' @ butlast arrow)
       \<and> \<not> sublist arrow (lit ''new'' @ lit ''/file.py'')"
    by (simp add: eval_defs)
  have dual: "lit ''a.txt => b.txt'' = lit ''a.txt'' @ arrow @ lit ''b.txt''
       \<and> LBRACE \<notin> set (lit ''a.txt'' @ lit ''b.txt'')
       \<and> RBRACE \<notin> set (lit ''a.txt'' @ lit ''b.txt'')
       \<and> \<not> sublist arrow (lit ''a.txt'' @ butlast arrow)
       \<and> \<not> sublist arrow (lit ''b.txt'')"
    by (simp add: eval_defs)
  have "parse_numstat ?out = parse_lines [?l2] ([] @ [\<lparr>path = lit ''new'' @ lit ''/file.py'',
          insertions = 5, deletions = 3, loc = None\<rparr>])"
    using rename_right_of_first_arrow[OF lines1 f1 acc1 n5 n3 a1, where old = "lit ''old''"
        and new = "lit ''new''" and sfx = "lit ''/file.py''"] brace
    unfolding Let_def by blast
  moreover have "parse_numstat ?out = parse_lines [] ([?r1] @ [\<lparr>path = lit ''b.txt'',
          insertions = 1, deletions = 0, loc = None\<rparr>])"
    using rename_right_of_first_arrow[OF lines2 f2 acc2 n1 n0 a2, where oldfull = "lit ''a.txt''"
        and newfull = "lit ''b.txt''"] dual
    unfolding Let_def by blast
  ultimately show ?thesis using lines a1 a2 by simp
qed

text \<open>
  Claim C1: every line whose path field contains \<open>" => "\<close> gets the new-side path as its
  record's path. The code does not do this for the form git writes when the old and the
  new path share leading directories, \<open>src/{old => new}/file.py\<close>: the new path is
  \<open>src/new/file.py\<close>, but after the braces are removed the text in front of the arrow,
  \<open>src/\<close> included, goes away with the old side and the record's path is \<open>new/file.py\<close>.
\<close>

theorem C1_text_before_braces_lost:
  "parse_numstat (lit ''5'' @ [TAB] @ lit ''3'' @ [TAB] @ lit ''src/{old => new}/file.py'')
     = Inr [\<lparr>path = lit ''new/file.py'', insertions = 5, deletions = 3, loc = None\<rparr>]
   \<and> lit ''new/file.py'' \<noteq> lit ''src/new/file.py''"
  by (simp add: eval_defs)

text \<open>With a second arrow only the text between the two arrows is kept.\<close>

lemma rename_two_arrows:
  "parse_numstat (lit ''5'' @ [TAB] @ lit ''3'' @ [TAB] @ lit ''a => b => c'')
     = Inr [\<lparr>path = lit ''b'', insertions = 5, deletions = 3, loc = None\<rparr>]"
  by (simp add: eval_defs)

text \<open>A numeric field that \<open>int()\<close> rejects ends the whole call with the error, also when
  \<open>strip()\<close> would have cleaned the field.\<close>

lemma parse_numstat_rejected_field:
  "parse_numstat ([55, 28] @ [TAB] @ lit ''1'' @ [TAB] @ lit ''x'' @ [NEWLINE]
                  @ lit ''2'' @ [TAB] @ lit ''3'' @ [TAB] @ lit ''y'') = Inl ValueError"
  by (simp add: eval_defs)

text \<open>
  Claim C2. A line of the stripped output with at least three tab-separated fields, whose
  first two fields are each the marker \<open>-\<close> or the decimal text of an integer, makes
  \<open>parse_numstat\<close> append one record: its insertions and deletions are those integers, and
  0 for a field that is the marker. \<open>acc\<close> are the records of the lines before it; when the
  call returns a list, this record is its element number \<open>length acc\<close>.
\<close>

theorem C2_numeric_fields_and_binary_marker:
  assumes "py_split [NEWLINE] (py_strip output) = before @ line # after"
    and "py_split [TAB] line = f0 # f1 # p # others"
    and "parse_lines before [] = Inr acc"
    and "f0 = dash \<or> f0 = py_str i"
    and "f1 = dash \<or> f1 = py_str d"
  shows "\<exists>r. parse_numstat output = parse_lines after (acc @ [r])
           \<and> rename_path p = Inr (path r)
           \<and> insertions r = (if f0 = dash then 0 else i)
           \<and> deletions r = (if f1 = dash then 0 else d)
           \<and> loc r = None
           \<and> (\<forall>changes. parse_numstat output = Inr changes
                 \<longrightarrow> length acc < length changes \<and> changes ! length acc = r)"
proof -
  obtain q where q: "rename_path p = Inr q" using rename_path_total by blast
  let ?a = "if f0 = dash then 0 else i"
  let ?b = "if f1 = dash then 0 else d"
  let ?r = "\<lparr>path = q, insertions = ?a, deletions = ?b, loc = None\<rparr>"
  have a: "(if f0 \<noteq> dash then py_int f0 else Inr 0) = Inr ?a"
    using assms(4) by (auto simp: py_int_py_str)
  have b: "(if f1 \<noteq> dash then py_int f1 else Inr 0) = Inr ?b"
    using assms(5) by (auto simp: py_int_py_str)
  have eq: "parse_numstat output = parse_lines after (acc @ [?r])"
    using assms(1,2,3) a b q by (rule parse_numstat_record)
  have "length acc < length changes \<and> changes ! length acc = ?r"
    if "parse_numstat output = Inr changes" for changes
  proof -
    have "parse_lines after (acc @ [?r]) = Inr changes" using that eq by simp
    then obtain ys where "changes = (acc @ [?r]) @ ys" using parse_lines_prefix by blast
    then show ?thesis by (simp add: nth_append)
  qed
  then show ?thesis using eq q by (intro exI[of _ ?r]) simp
qed

theorem C2_witness:
  "py_split [NEWLINE] (py_strip
      (lit ''10'' @ [TAB] @ lit ''5'' @ [TAB] @ lit ''src/file.py'' @ [NEWLINE]
       @ lit ''-'' @ [TAB] @ lit ''207'' @ [TAB] @ lit ''image.png''))
     = [lit ''10'' @ [TAB] @ lit ''5'' @ [TAB] @ lit ''src/file.py''] @
       (lit ''-'' @ [TAB] @ lit ''207'' @ [TAB] @ lit ''image.png'') # []
   \<and> py_split [TAB] (lit ''-'' @ [TAB] @ lit ''207'' @ [TAB] @ lit ''image.png'')
     = lit ''-'' # lit ''207'' # lit ''image.png'' # []
   \<and> lit ''207'' = py_str 207
   \<and> parse_numstat
      (lit ''10'' @ [TAB] @ lit ''5'' @ [TAB] @ lit ''src/file.py'' @ [NEWLINE]
       @ lit ''-'' @ [TAB] @ lit ''207'' @ [TAB] @ lit ''image.png'')
     = Inr [\<lparr>path = lit ''src/file.py'', insertions = 10, deletions = 5, loc = None\<rparr>,
            \<lparr>path = lit ''image.png'', insertions = 0, deletions = 207, loc = None\<rparr>]"
proof -
  let ?l1 = "lit ''10'' @ [TAB] @ lit ''5'' @ [TAB] @ lit ''src/file.py''"
  let ?l2 = "lit ''-'' @ [TAB] @ lit ''207'' @ [TAB] @ lit ''image.png''"
  let ?out = "lit ''10'' @ [TAB] @ lit ''5'' @ [TAB] @ lit ''src/file.py'' @ [NEWLINE]
       @ lit ''-'' @ [TAB] @ lit ''207'' @ [TAB] @ lit ''image.png''"
  let ?r1 = "\<lparr>path = lit ''src/file.py'', insertions = 10, deletions = 5, loc = None\<rparr>"
  have lines: "py_split [NEWLINE] (py_strip ?out) = [?l1] @ ?l2 # []"
    by (simp add: eval_defs)
  have fields: "py_split [TAB] ?l2 = lit ''-'' # lit ''207'' # lit ''image.png'' # []"
    by (simp add: eval_defs)
  have acc: "parse_lines [?l1] [] = Inr [?r1]" by (simp add: eval_defs)
  have m: "lit ''-'' = dash \<or> lit ''-'' = py_str 0" by (simp add: dash_def)
  have n: "lit ''207'' = py_str 207"
    by (simp add: py_str_def lit_def digits.simps)
  then have n': "lit ''207'' = dash \<or> lit ''207'' = py_str 207" by simp
  have nd: "lit ''207'' \<noteq> dash" by (simp add: eval_defs)
  have pth: "rename_path (lit ''image.png'') = Inr (lit ''image.png'')"
    by (simp add: eval_defs)
  obtain r where r: "parse_numstat ?out = parse_lines [] ([?r1] @ [r])"
      "rename_path (lit ''image.png'') = Inr (path r)"
      "insertions r = (if lit ''-'' = dash then 0 else 0)"
      "deletions r = (if lit ''207'' = dash then 0 else 207)" "loc r = None"
    using C2_numeric_fields_and_binary_marker[OF lines fields acc m n'] by blast
  have "r = \<lparr>path = lit ''image.png'', insertions = 0, deletions = 207, loc = None\<rparr>"
    using r(2-5) pth nd by (cases r) (simp add: dash_def)
  then show ?thesis using r(1) lines fields n by simp
qed

subsection \<open>The JSON projection\<close>

lemma to_json_files:
  "jget (lit ''files'') (to_json changes mode base_ref) = Some (JList (map file_entry changes))"
  by (simp add: to_json_def Let_def lit_def update_conv' split: option.splits)

lemma to_json_summary:
  "jget (lit ''summary'') (to_json changes mode base_ref) =
     Some (JObj [(lit ''total_insertions'', JInt (sum_list (map insertions changes))),
                 (lit ''total_deletions'', JInt (sum_list (map deletions changes))),
                 (lit ''net'', JInt (sum_list (map insertions changes)
                                     - sum_list (map deletions changes))),
                 (lit ''file_count'', JInt (int (length changes)))])"
  by (simp add: to_json_def Let_def lit_def update_conv' split: option.splits)

lemma to_json_base:
  "jget (lit ''base'') (to_json changes mode base_ref) =
     (case base_ref of None \<Rightarrow> None | Some b \<Rightarrow> if b = [] then None else Some (JStr b))"
  by (simp add: to_json_def Let_def lit_def update_conv' split: option.splits)

lemma file_entry_fields:
  "jget (lit ''insertions'') (file_entry c) = Some (JInt (insertions c))"
  "jget (lit ''deletions'') (file_entry c) = Some (JInt (deletions c))"
  "jget (lit ''path'') (file_entry c) = Some (JStr (path c))"
  "jget (lit ''loc'') (file_entry c) = Some (case loc c of None \<Rightarrow> JNull | Some n \<Rightarrow> JInt n)"
  by (simp_all add: file_entry_def lit_def)

text \<open>
  Claim C5. In the document \<open>to_json\<close> returns, the summary's \<open>total_insertions\<close>,
  \<open>total_deletions\<close>, \<open>net\<close> and \<open>file_count\<close> are the sum of the \<open>insertions\<close> fields, the sum
  of the \<open>deletions\<close> fields, their difference and the length of the list under \<open>files\<close> of
  the same document; that list has one entry per change, in order, and the entry's \<open>loc\<close>
  is \<open>null\<close> when the change has none.
\<close>

theorem C5_json_summary_matches_files:
  "let doc = to_json changes mode base_ref;
       files = jlist (jget (lit ''files'') doc);
       ins = sum_list (map (\<lambda>f. jint (jget (lit ''insertions'') f)) files);
       dels = sum_list (map (\<lambda>f. jint (jget (lit ''deletions'') f)) files)
   in jget (lit ''files'') doc = Some (JList files)
      \<and> jpath [lit ''summary'', lit ''total_insertions''] doc = Some (JInt ins)
      \<and> jpath [lit ''summary'', lit ''total_deletions''] doc = Some (JInt dels)
      \<and> jpath [lit ''summary'', lit ''net''] doc = Some (JInt (ins - dels))
      \<and> jpath [lit ''summary'', lit ''file_count''] doc = Some (JInt (int (length files)))
      \<and> ins = sum_list (map insertions changes)
      \<and> dels = sum_list (map deletions changes)
      \<and> length files = length changes
      \<and> map (jget (lit ''loc'')) files
          = map (\<lambda>c. Some (case loc c of None \<Rightarrow> JNull | Some n \<Rightarrow> JInt n)) changes"
proof -
  have i: "sum_list (map (\<lambda>f. jint (jget (lit ''insertions'') f)) (map file_entry changes))
           = sum_list (map insertions changes)"
    by (simp add: comp_def file_entry_fields)
  have d: "sum_list (map (\<lambda>f. jint (jget (lit ''deletions'') f)) (map file_entry changes))
           = sum_list (map deletions changes)"
    by (simp add: comp_def file_entry_fields)
  have s: "jpath [lit ''summary'', k] (to_json changes mode base_ref)
           = jget k (JObj [(lit ''total_insertions'', JInt (sum_list (map insertions changes))),
                 (lit ''total_deletions'', JInt (sum_list (map deletions changes))),
                 (lit ''net'', JInt (sum_list (map insertions changes)
                                     - sum_list (map deletions changes))),
                 (lit ''file_count'', JInt (int (length changes)))])" for k
    by (cases "jget k (JObj [(lit ''total_insertions'', JInt (sum_list (map insertions changes))),
                 (lit ''total_deletions'', JInt (sum_list (map deletions changes))),
                 (lit ''net'', JInt (sum_list (map insertions changes)
                                     - sum_list (map deletions changes))),
                 (lit ''file_count'', JInt (int (length changes)))])")
       (simp_all add: to_json_summary)
  have l: "map (jget (lit ''loc'')) (map file_entry changes)
          = map (\<lambda>c. Some (case loc c of None \<Rightarrow> JNull | Some n \<Rightarrow> JInt n)) changes"
    by (simp add: comp_def file_entry_fields)
  show ?thesis
    unfolding Let_def to_json_files jlist.simps i d s l
    by (simp add: lit_def)
qed

theorem C5_witness:
  "jpath [lit ''summary'', lit ''net'']
     (to_json [\<lparr>path = lit ''a/b.py'', insertions = 1, deletions = 5, loc = None\<rparr>,
               \<lparr>path = lit ''c.py'', insertions = 2, deletions = 0, loc = Some 7\<rparr>]
              (lit ''default'') (Some (lit ''HEAD''))) = Some (JInt (- 2))
   \<and> map (jget (lit ''loc''))
        (jlist (jget (lit ''files'')
          (to_json [\<lparr>path = lit ''a/b.py'', insertions = 1, deletions = 5, loc = None\<rparr>,
               \<lparr>path = lit ''c.py'', insertions = 2, deletions = 0, loc = Some 7\<rparr>]
              (lit ''default'') (Some (lit ''HEAD'')))))
       = [Some JNull, Some (JInt 7)]"
  using C5_json_summary_matches_files[of
      "[\<lparr>path = lit ''a/b.py'', insertions = 1, deletions = 5, loc = None\<rparr>,
        \<lparr>path = lit ''c.py'', insertions = 2, deletions = 0, loc = Some 7\<rparr>]"
      "lit ''default''" "Some (lit ''HEAD'')"]
  unfolding Let_def by simp

text \<open>
  Claim C8, as amended. The document holds the key \<open>base\<close> exactly when the base reference
  is a string that is not empty, and then with that string as its value; it is left out
  when the base reference is absent and also when it is the empty string.
\<close>

theorem C8_base_present_iff_nonempty:
  "jget (lit ''base'') (to_json changes mode base_ref) =
     (case base_ref of
        None \<Rightarrow> None
      | Some b \<Rightarrow> if b = [] then None else Some (JStr b))"
  by (rule to_json_base)

theorem C8_witness:
  "jget (lit ''base'') (to_json [] (lit ''default'') (Some (lit ''HEAD''))) = Some (JStr (lit ''HEAD''))
   \<and> jget (lit ''base'') (to_json [] (lit ''default'') None) = None"
  using C8_base_present_iff_nonempty[of "[]" "lit ''default''" "Some (lit ''HEAD'')"]
        C8_base_present_iff_nonempty[of "[]" "lit ''default''" None]
  by (simp add: lit_def)

text \<open>The claim as written fails for the empty string: the key is then absent.\<close>

theorem C8_counterexample:
  "jget (lit ''base'') (to_json [] (lit ''default'') (Some [])) = None"
  by (simp add: to_json_def Let_def lit_def)

subsection \<open>The comparison mode\<close>

text \<open>
  Claim C9, as amended. When \<open>--since-last\<close> is given, the mode is \<open>since-last\<close> whether or
  not \<open>--uncommitted\<close> is given too, and \<open>get_changes\<close> compares \<open>HEAD~1\<close> with \<open>HEAD\<close>:
  with both flags it is \<open>--since-last\<close> that wins.
\<close>

theorem C9_since_last_wins:
  "since_last \<Longrightarrow>
     main_mode since_last uncommitted = lit ''since-last''
     \<and> get_changes_diff_args (main_mode since_last uncommitted) base
         = [lit ''--numstat'', lit ''HEAD~1'', lit ''HEAD'']"
  by (simp add: main_mode_def get_changes_diff_args_def lit_def)

theorem C9_witness:
  "main_mode True True = lit ''since-last''
   \<and> get_changes_diff_args (main_mode True True) (lit ''abc123'')
       = [lit ''--numstat'', lit ''HEAD~1'', lit ''HEAD'']"
  using C9_since_last_wins[of True True "lit ''abc123''"] by blast

text \<open>With both flags the mode is not \<open>uncommitted\<close>.\<close>

theorem C9_counterexample:
  "main_mode True True \<noteq> lit ''uncommitted''"
  by (simp add: main_mode_def lit_def)

subsection \<open>The column formatter\<close>

lemma strip_ansi_plain: "ESC \<notin> set a \<Longrightarrow> strip_ansi (a @ b) = a @ strip_ansi b"
  by (induction a) auto

lemma strip_ansi_plain_end: "ESC \<notin> set a \<Longrightarrow> strip_ansi a = a"
  using strip_ansi_plain[of a "[]"] by simp

lemma strip_ansi_codes:
  "strip_ansi (GREEN @ b) = strip_ansi b"
  "strip_ansi (RED @ b) = strip_ansi b"
  "strip_ansi (RESET @ b) = strip_ansi b"
  by (simp_all add: GREEN_def RED_def RESET_def lit_def ESC_def is_digit_def)

lemma no_esc_digits: "ESC \<notin> set (digits n)"
proof
  assume "ESC \<in> set (digits n)"
  then have "is_digit ESC" using is_digit_digits by blast
  then show False by (simp add: is_digit_def ESC_def)
qed

lemma no_esc_py_str: "ESC \<notin> set (py_str i)"
  using no_esc_digits by (simp add: py_str_def ESC_def MINUS_def)

lemma no_esc_rjust: "ESC \<notin> set s \<Longrightarrow> ESC \<notin> set (rjust s w)"
  by (auto simp: rjust_def ESC_def SPACE_def)

lemma no_esc_loc_str: "ESC \<notin> set (case lc of Some n \<Rightarrow> py_str n | None \<Rightarrow> dash)"
  using no_esc_py_str by (cases lc) (simp_all add: dash_def lit_def ESC_def)

lemma no_esc_lit: "ESC \<notin> set (lit ''  '')" "ESC \<notin> set (lit ''+'')" "ESC \<notin> set (lit '' '')"
  "ESC \<notin> set (lit ''-'')" 
  by (simp_all add: lit_def ESC_def)

lemma strip_ansi_reset_end: "strip_ansi RESET = []"
  by (simp add: RESET_def lit_def ESC_def is_digit_def)

lemma strip_colored:
  assumes "ESC \<notin> set a" "ESC \<notin> set b" "ESC \<notin> set c"
  shows "strip_ansi (a @ lit ''  '' @ GREEN @ lit ''+'' @ b @ RESET @ lit '' '' @ RED
                     @ lit ''-'' @ c @ RESET)
         = a @ lit ''  +'' @ b @ lit '' -'' @ c"
proof -
  have "strip_ansi (c @ RESET) = c"
    using assms(3) by (simp add: strip_ansi_plain strip_ansi_reset_end)
  then have "strip_ansi (RED @ lit ''-'' @ c @ RESET) = lit ''-'' @ c"
    by (simp add: strip_ansi_codes strip_ansi_plain no_esc_lit)
  then have "strip_ansi (RESET @ lit '' '' @ RED @ lit ''-'' @ c @ RESET) = lit '' '' @ lit ''-'' @ c"
    by (simp add: strip_ansi_codes strip_ansi_plain no_esc_lit)
  then have "strip_ansi (b @ RESET @ lit '' '' @ RED @ lit ''-'' @ c @ RESET)
             = b @ lit '' '' @ lit ''-'' @ c"
    using assms(2) by (simp add: strip_ansi_plain)
  then have "strip_ansi (GREEN @ lit ''+'' @ b @ RESET @ lit '' '' @ RED @ lit ''-'' @ c @ RESET)
             = lit ''+'' @ b @ lit '' '' @ lit ''-'' @ c"
    by (simp add: strip_ansi_codes strip_ansi_plain no_esc_lit)
  then have "strip_ansi (a @ lit ''  '' @ GREEN @ lit ''+'' @ b @ RESET @ lit '' '' @ RED
                         @ lit ''-'' @ c @ RESET)
             = a @ lit ''  '' @ lit ''+'' @ b @ lit '' '' @ lit ''-'' @ c"
    using assms(1) by (simp add: strip_ansi_plain no_esc_lit)
  then show ?thesis by (simp add: lit_def)
qed

text \<open>
  Claim C6. For every loc, insertions, deletions and every three widths, the coloured
  output of \<open>format_stats_aligned\<close> with its escape sequences stripped is, character for
  character, the plain output for the same arguments. This holds for the function of
  \<open>tree.py\<close> and for its copy in \<open>output.py\<close>.
\<close>

theorem C6_colour_strips_to_plain:
  "strip_ansi (format_stats_aligned lc ins dels loc_width ins_width dels_width True)
     = format_stats_aligned lc ins dels loc_width ins_width dels_width False
   \<and> strip_ansi (output_format_stats_aligned lc ins dels loc_width ins_width dels_width True)
     = output_format_stats_aligned lc ins dels loc_width ins_width dels_width False"
proof -
  have a: "ESC \<notin> set (rjust (case lc of Some n \<Rightarrow> py_str n | None \<Rightarrow> dash) loc_width)"
    using no_esc_loc_str by (rule no_esc_rjust)
  have b: "ESC \<notin> set (rjust (py_str ins) ins_width)"
    using no_esc_py_str by (rule no_esc_rjust)
  have c: "ESC \<notin> set (rjust (py_str dels) dels_width)"
    using no_esc_py_str by (rule no_esc_rjust)
  show ?thesis
    unfolding format_stats_aligned_def output_format_stats_aligned_def Let_def
    using strip_colored[OF a b c] by simp
qed

lemma replicate_numeral: "replicate (numeral v) x = x # replicate (numeral v - 1) x"
  by (simp add: numeral_eq_Suc)

lemmas fmt_defs = format_stats_aligned_def output_format_stats_aligned_def rjust_def py_str_def
  digits.simps GREEN_def RED_def RESET_def replicate_numeral

theorem C6_witness:
  "strip_ansi (format_stats_aligned None 12 (- 5) 3 2 1 True) = lit ''  -  +12 --5''
   \<and> format_stats_aligned None 12 (- 5) 3 2 1 False = lit ''  -  +12 --5''
   \<and> format_stats_aligned None 12 (- 5) 3 2 1 True
        = lit ''  -  '' @ GREEN @ lit ''+12'' @ RESET @ lit '' '' @ RED @ lit ''--5'' @ RESET"
proof -
  have p: "format_stats_aligned None 12 (- 5) 3 2 1 False = lit ''  -  +12 --5''"
    by (simp add: fmt_defs eval_defs)
  have q: "format_stats_aligned None 12 (- 5) 3 2 1 True
        = lit ''  -  '' @ GREEN @ lit ''+12'' @ RESET @ lit '' '' @ RED @ lit ''--5'' @ RESET"
    by (simp add: fmt_defs eval_defs)
  show ?thesis using C6_colour_strips_to_plain[of None 12 "- 5" 3 2 1] p q by simp
qed

subsection \<open>Column widths\<close>

lemma fold_max_eq_Max:
  fixes w0 :: int
  shows "fold (\<lambda>x w. max w (f x)) xs w0 = Max (insert w0 (f ` set xs))"
proof (induction xs arbitrary: w0)
  case Nil
  show ?case by simp
next
  case (Cons x xs)
  have "Max (insert (max w0 (f x)) (f ` set xs)) = Max (insert w0 (insert (f x) (f ` set xs)))"
    by (cases "set xs = {}") (simp_all add: max.assoc max.commute max.left_commute)
  then show ?case using Cons by simp
qed

lemma fold_widen:
  "fold widen rows (a, b, c) =
     (fold (\<lambda>r w. max w (int (length (loc_text (fst r))))) rows a,
      fold (\<lambda>r w. max w (int (length (py_str (fst (snd r)))))) rows b,
      fold (\<lambda>r w. max w (int (length (py_str (snd (snd r)))))) rows c)"
  by (induction rows arbitrary: a b c) (auto simp: widen_def loc_text_def Let_def)

lemma tree_widths_rows:
  "fold (\<lambda>line w. case stats line of None \<Rightarrow> w | Some st \<Rightarrow> widen st w) tree_lines w0
   = fold widen (List.map_filter stats tree_lines) w0"
  by (induction tree_lines arbitrary: w0) (auto simp: List.map_filter_def split: option.splits)

lemma widths_eq_Max:
  "fold widen rows (1, 1, 1) =
     (Max (insert 1 ((\<lambda>r. int (length (loc_text (fst r)))) ` set rows)),
      Max (insert 1 ((\<lambda>r. int (length (py_str (fst (snd r))))) ` set rows)),
      Max (insert 1 ((\<lambda>r. int (length (py_str (snd (snd r))))) ` set rows)))"
  by (simp add: fold_widen fold_max_eq_Max)

lemma length_rjust: "int (length s) \<le> w \<Longrightarrow> int (length (rjust s w)) = w"
  by (simp add: rjust_def)

lemma tree_widths_eq_Max:
  "tree_widths tree_lines =
     (Max (insert 1 ((\<lambda>r. int (length (loc_text (fst r)))) ` set (List.map_filter stats tree_lines))),
      Max (insert 1 ((\<lambda>r. int (length (py_str (fst (snd r))))) ` set (List.map_filter stats tree_lines))),
      Max (insert 1 ((\<lambda>r. int (length (py_str (snd (snd r))))) ` set (List.map_filter stats tree_lines))))"
  unfolding tree_widths_def tree_widths_rows by (rule widths_eq_Max)

lemma flat_widths_eq_Max:
  "flat_widths changes =
     (Max (insert 1 ((\<lambda>r. int (length (loc_text (fst r))))
                       ` set (map (\<lambda>c. (loc c, insertions c, deletions c)) changes))),
      Max (insert 1 ((\<lambda>r. int (length (py_str (fst (snd r)))))
                       ` set (map (\<lambda>c. (loc c, insertions c, deletions c)) changes))),
      Max (insert 1 ((\<lambda>r. int (length (py_str (snd (snd r)))))
                       ` set (map (\<lambda>c. (loc c, insertions c, deletions c)) changes))))"
proof -
  have "flat_widths changes
        = fold widen (map (\<lambda>c. (loc c, insertions c, deletions c)) changes) (1, 1, 1)"
    by (simp add: flat_widths_def fold_map comp_def)
  then show ?thesis by (simp only: widths_eq_Max)
qed

lemma Max_insert_ge:
  fixes f :: "'a \<Rightarrow> int"
  shows "r \<in> set rows \<Longrightarrow> f r \<le> Max (insert 1 (f ` set rows))"
  by (simp add: Max_ge_iff)

text \<open>
  Claim C4. The three column widths \<open>render_tree\<close> computes over the lines of a tree, and
  \<open>to_flat\<close> over a list of changes, are each the largest length of the column's text among
  the rows (the lines that carry stats, or the changes), and 1 when that is smaller or
  there is no row; an absent loc counts as the one character \<open>-\<close>. Every row is formatted
  with these widths, and each padded column has exactly that width.
\<close>

theorem C4_column_widths:
  "let tree_lines = collect_lines node [];
       rows = List.map_filter stats tree_lines;
       flat_rows = map (\<lambda>c. (loc c, insertions c, deletions c)) changes;
       width = (\<lambda>cell rs. Max (insert 1 ((\<lambda>r. int (length (cell r))) ` set rs)));
       loc_cell = (\<lambda>r. loc_text (fst r));
       ins_cell = (\<lambda>r. py_str (fst (snd r)));
       dels_cell = (\<lambda>r. py_str (snd (snd r)))
   in tree_widths tree_lines = (width loc_cell rows, width ins_cell rows, width dels_cell rows)
      \<and> flat_widths changes
          = (width loc_cell flat_rows, width ins_cell flat_rows, width dels_cell flat_rows)
      \<and> (\<exists>text_width.
            render_tree node pre use_color =
              map (\<lambda>line. case stats line of
                             None \<Rightarrow> text_of line
                           | Some (lc, ins, dels) \<Rightarrow>
                               text_of line
                               @ replicate (nat (text_width - int (length (text_of line)))) SPACE
                               @ lit ''  ''
                               @ format_stats_aligned lc ins dels (width loc_cell rows)
                                   (width ins_cell rows) (width dels_cell rows) use_color)
                  tree_lines)
      \<and> (\<exists>path_width.
            to_flat changes use_color =
              map (\<lambda>c. path c
                        @ replicate (nat (path_width - int (length (path c)))) SPACE
                        @ lit ''  ''
                        @ output_format_stats_aligned (loc c) (insertions c) (deletions c)
                            (width loc_cell flat_rows) (width ins_cell flat_rows)
                            (width dels_cell flat_rows) use_color)
                  changes)
      \<and> (\<forall>rs \<in> {rows, flat_rows}. \<forall>r \<in> set rs.
            int (length (rjust (loc_cell r) (width loc_cell rs))) = width loc_cell rs
            \<and> int (length (rjust (ins_cell r) (width ins_cell rs))) = width ins_cell rs
            \<and> int (length (rjust (dels_cell r) (width dels_cell rs))) = width dels_cell rs)"
proof -
  let ?lines = "collect_lines node []"
  let ?rows = "List.map_filter stats ?lines"
  let ?flat = "map (\<lambda>c. (loc c, insertions c, deletions c)) changes"
  let ?width = "\<lambda>cell rs. Max (insert 1 ((\<lambda>r. int (length (cell r))) ` set rs))"
  let ?lc = "\<lambda>r :: int option \<times> int \<times> int. loc_text (fst r)"
  let ?ic = "\<lambda>r :: int option \<times> int \<times> int. py_str (fst (snd r))"
  let ?dc = "\<lambda>r :: int option \<times> int \<times> int. py_str (snd (snd r))"
  have tw: "tree_widths ?lines = (?width ?lc ?rows, ?width ?ic ?rows, ?width ?dc ?rows)"
    by (rule tree_widths_eq_Max)
  have fw: "flat_widths changes = (?width ?lc ?flat, ?width ?ic ?flat, ?width ?dc ?flat)"
    by (rule flat_widths_eq_Max)
  have rt: "\<exists>text_width.
            render_tree node pre use_color =
              map (\<lambda>line. case stats line of
                             None \<Rightarrow> text_of line
                           | Some (lc, ins, dels) \<Rightarrow>
                               text_of line
                               @ replicate (nat (text_width - int (length (text_of line)))) SPACE
                               @ lit ''  ''
                               @ format_stats_aligned lc ins dels (?width ?lc ?rows)
                                   (?width ?ic ?rows) (?width ?dc ?rows) use_color)
                  ?lines"
  proof (cases "?lines = []")
    case True
    then show ?thesis by (simp add: render_tree_def)
  next
    case False
    let ?mw = "if \<exists>line \<in> set ?lines. stats line \<noteq> None
                then py_max (map (\<lambda>line. int (length (text_of line)))
                                 (filter (\<lambda>line. stats line \<noteq> None) ?lines))
                else 0"
    show ?thesis
      unfolding render_tree_def Let_def tw
      by (rule exI[of _ ?mw]) (simp only: False if_False prod.case)
  qed
  have tf: "\<exists>path_width.
            to_flat changes use_color =
              map (\<lambda>c. path c
                        @ replicate (nat (path_width - int (length (path c)))) SPACE
                        @ lit ''  ''
                        @ output_format_stats_aligned (loc c) (insertions c) (deletions c)
                            (?width ?lc ?flat) (?width ?ic ?flat) (?width ?dc ?flat) use_color)
                  changes"
  proof (cases "changes = []")
    case True
    then show ?thesis by (simp add: to_flat_def)
  next
    case False
    show ?thesis
      unfolding to_flat_def Let_def fw
      by (rule exI[of _ "py_max (map (\<lambda>c. int (length (path c))) changes)"])
         (simp only: False if_False prod.case)
  qed
  have len: "int (length (rjust (cell r) (?width cell rs))) = ?width cell rs"
    if "r \<in> set rs" for cell :: "int option \<times> int \<times> int \<Rightarrow> str" and r rs
    using that by (intro length_rjust Max_insert_ge[of r rs "\<lambda>r. int (length (cell r))"])
  have cols: "\<forall>rs \<in> {?rows, ?flat}. \<forall>r \<in> set rs.
            int (length (rjust (?lc r) (?width ?lc rs))) = ?width ?lc rs
            \<and> int (length (rjust (?ic r) (?width ?ic rs))) = ?width ?ic rs
            \<and> int (length (rjust (?dc r) (?width ?dc rs))) = ?width ?dc rs"
  proof (intro ballI conjI)
    fix rs :: "(int option \<times> int \<times> int) list" and r assume "r \<in> set rs"
    then show "int (length (rjust (?lc r) (?width ?lc rs))) = ?width ?lc rs"
      by (rule len[of r rs ?lc])
    from \<open>r \<in> set rs\<close> show "int (length (rjust (?ic r) (?width ?ic rs))) = ?width ?ic rs"
      by (rule len[of r rs ?ic])
    from \<open>r \<in> set rs\<close> show "int (length (rjust (?dc r) (?width ?dc rs))) = ?width ?dc rs"
      by (rule len[of r rs ?dc])
  qed
  show ?thesis
    unfolding Let_def
    apply (intro conjI)
        apply (rule tw)
       apply (rule fw)
      apply (rule rt)
     apply (rule tf)
    apply (rule cols)
    done
qed

lemmas tree_defs = build_tree_def root_node_def set_children_def sort_key_of_def
  CORNER_def BRANCH_def VBAR_def enumerate_eq_zip List.map_filter_def
  tree_widths_def widen_def loc_text_def render_tree_def

theorem C4_witness:
  "tree_widths (collect_lines
      (build_tree [\<lparr>path = lit ''a'', insertions = 1, deletions = 10, loc = None\<rparr>,
                   \<lparr>path = lit ''b'', insertions = 2, deletions = 0, loc = Some 7\<rparr>,
                   \<lparr>path = lit ''c'', insertions = 3, deletions = 0, loc = Some 123\<rparr>]) [])
     = (3, 1, 2)
   \<and> render_tree
      (build_tree [\<lparr>path = lit ''a'', insertions = 1, deletions = 10, loc = None\<rparr>,
                   \<lparr>path = lit ''b'', insertions = 2, deletions = 0, loc = Some 7\<rparr>,
                   \<lparr>path = lit ''c'', insertions = 3, deletions = 0, loc = Some 123\<rparr>]) [] False
     = [BRANCH @ lit ''a    -  +1 -10'',
        BRANCH @ lit ''b    7  +2 - 0'',
        CORNER @ lit ''c  123  +3 - 0'']"
proof -
  let ?N = "build_tree [\<lparr>path = lit ''a'', insertions = 1, deletions = 10, loc = None\<rparr>,
                   \<lparr>path = lit ''b'', insertions = 2, deletions = 0, loc = Some 7\<rparr>,
                   \<lparr>path = lit ''c'', insertions = 3, deletions = 0, loc = Some 123\<rparr>]"
  have lines: "collect_lines ?N [] =
      [\<lparr>text_of = BRANCH @ lit ''a'', stats = Some (None, 1, 10)\<rparr>,
       \<lparr>text_of = BRANCH @ lit ''b'', stats = Some (Some 7, 2, 0)\<rparr>,
       \<lparr>text_of = CORNER @ lit ''c'', stats = Some (Some 123, 3, 0)\<rparr>]"
    by (subst collect_lines.simps) (simp add: tree_defs eval_defs)
  have "tree_widths (collect_lines ?N []) =
      (Max (insert 1 ((\<lambda>r. int (length (loc_text (fst r))))
                        ` set (List.map_filter stats (collect_lines ?N [])))),
       Max (insert 1 ((\<lambda>r. int (length (py_str (fst (snd r)))))
                        ` set (List.map_filter stats (collect_lines ?N [])))),
       Max (insert 1 ((\<lambda>r. int (length (py_str (snd (snd r)))))
                        ` set (List.map_filter stats (collect_lines ?N [])))))"
    using C4_column_widths[of ?N "[]" "[]" False] unfolding Let_def by blast
  then have w: "tree_widths (collect_lines ?N []) = (3, 1, 2)"
    unfolding lines
    by (simp add: List.map_filter_def loc_text_def py_str_def digits.simps dash_def lit_def)
  have r: "render_tree ?N [] False
     = [BRANCH @ lit ''a    -  +1 -10'',
        BRANCH @ lit ''b    7  +2 - 0'',
        CORNER @ lit ''c  123  +3 - 0'']"
    unfolding render_tree_def Let_def w
    unfolding lines
    apply (simp add: lit_def BRANCH_def CORNER_def)
    apply (simp add: fmt_defs eval_defs)
    done
  show ?thesis using w r by simp
qed

subsection \<open>The tree line renderer\<close>

lemma map_enumerate_nth:
  "map f (enumerate 0 xs) = map (\<lambda>i. f (i, xs ! i)) [0..<length xs]"
  by (rule nth_equalityI) (simp_all add: nth_enumerate_eq)

lemma dirs_before_files:
  "sorted (map sort_key_of xs) \<Longrightarrow>
   xs = filter (\<lambda>n. \<not> is_file n) xs @ filter is_file xs"
proof (induction xs)
  case Nil
  show ?case by simp
next
  case (Cons x xs)
  then have ih: "xs = filter (\<lambda>n. \<not> is_file n) xs @ filter is_file xs" by simp
  show ?case
  proof (cases "is_file x")
    case False
    then show ?thesis using ih by simp
  next
    case True
    have "\<forall>y\<in>set xs. is_file y"
      using Cons.prems True by (auto simp: sort_key_of_def)
    then have "filter (\<lambda>n. \<not> is_file n) xs = []" "filter is_file xs = xs"
      by (simp_all add: filter_empty_conv filter_id_conv)
    then show ?thesis using True by simp
  qed
qed

lemma sorted_names_in_group:
  "sorted (map sort_key_of xs) \<Longrightarrow> \<forall>x\<in>set xs. is_file x = b \<Longrightarrow> sorted (map name xs)"
  by (induction xs) (auto simp: sort_key_of_def)

lemma sorted_key_filter:
  "sorted (map sort_key_of xs) \<Longrightarrow> sorted (map sort_key_of (filter P xs))"
  by (induction xs) auto

text \<open>
  Claim C3. At every node, with any prefix, \<open>_collect_lines\<close> emits the children in the
  order \<open>kids\<close>: a rearrangement of the node's children that is ascending in
  \<open>(is_file, name)\<close>, names compared by code points, so that all directories come before all
  files and each of the two groups is ascending by name. The output is the concatenation,
  in that order, of one block per child: its line, with the corner connector for the last
  child and the branch connector for every other one, followed for a directory by the lines
  of that directory, produced the same way under the extended prefix.
\<close>

theorem C3_children_sorted_and_connectors:
  "let kids = sort_key sort_key_of (map snd (children node));
       dirs = filter (\<lambda>n. \<not> is_file n) kids;
       files = filter is_file kids;
       block = (\<lambda>i.
         let child = kids ! i;
             connector = (if i = length kids - 1 then CORNER else BRANCH)
         in if is_file child
            then [\<lparr>text_of = pre @ connector @ name child,
                   stats = Some (node_loc child, node_insertions child, node_deletions child)\<rparr>]
            else \<lparr>text_of = pre @ connector @ name child @ [SLASH], stats = None\<rparr>
                 # collect_lines child
                     (pre @ (if i = length kids - 1 then lit ''    '' else VBAR)))
   in collect_lines node pre = concat (map block [0..<length kids])
      \<and> mset kids = mset (map snd (children node))
      \<and> sorted (map sort_key_of kids)
      \<and> kids = dirs @ files
      \<and> sorted (map name dirs)
      \<and> sorted (map name files)"
proof -
  let ?kids = "sort_key sort_key_of (map snd (children node))"
  let ?block = "\<lambda>i.
         let child = ?kids ! i;
             connector = (if i = length ?kids - 1 then CORNER else BRANCH)
         in if is_file child
            then [\<lparr>text_of = pre @ connector @ name child,
                   stats = Some (node_loc child, node_insertions child, node_deletions child)\<rparr>]
            else \<lparr>text_of = pre @ connector @ name child @ [SLASH], stats = None\<rparr>
                 # collect_lines child
                     (pre @ (if i = length ?kids - 1 then lit ''    '' else VBAR))"
  have last: "(int i = int n - 1) = (i = n - 1)" if "i < n" for i n :: nat
    using that by auto
  have "collect_lines node pre =
        concat (map (\<lambda>i. (\<lambda>(i, child).
          (let is_last = (int i = int (length ?kids) - 1);
               connector = (if is_last then CORNER else BRANCH)
           in if is_file child
              then [\<lparr>text_of = pre @ connector @ name child,
                     stats = Some (node_loc child, node_insertions child, node_deletions child)\<rparr>]
              else \<lparr>text_of = pre @ connector @ name child @ [SLASH], stats = None\<rparr>
                   # collect_lines child (pre @ (if is_last then lit ''    '' else VBAR))))
          (i, ?kids ! i)) [0..<length ?kids])"
    by (subst collect_lines.simps) (simp only: Let_def map_enumerate_nth)
  also have "\<dots> = concat (map ?block [0..<length ?kids])"
    by (rule arg_cong[where f = concat], rule map_cong) (simp_all add: Let_def last)
  finally have out: "collect_lines node pre = concat (map ?block [0..<length ?kids])" .
  have perm: "mset ?kids = mset (map snd (children node))" by simp
  have srt: "sorted (map sort_key_of ?kids)" by (rule sorted_sort_key)
  have split: "?kids = filter (\<lambda>n. \<not> is_file n) ?kids @ filter is_file ?kids"
    using srt by (rule dirs_before_files)
  have d: "sorted (map name (filter (\<lambda>n. \<not> is_file n) ?kids))"
    by (rule sorted_names_in_group[where b = False]) (simp_all add: sorted_key_filter srt)
  have f: "sorted (map name (filter is_file ?kids))"
    by (rule sorted_names_in_group[where b = True]) (simp_all add: sorted_key_filter srt)
  show ?thesis
    unfolding Let_def
    apply (intro conjI)
         apply (rule out[unfolded Let_def])
        apply (rule perm)
       apply (rule srt)
      apply (rule split)
     apply (rule d)
    apply (rule f)
    done
qed

theorem C3_witness:
  "collect_lines
      (build_tree [\<lparr>path = lit ''b'', insertions = 1, deletions = 0, loc = None\<rparr>,
                   \<lparr>path = lit ''src/x'', insertions = 2, deletions = 0, loc = Some 7\<rparr>,
                   \<lparr>path = lit ''B'', insertions = 3, deletions = 0, loc = Some 9\<rparr>]) []
     = [\<lparr>text_of = BRANCH @ lit ''src/'', stats = None\<rparr>,
        \<lparr>text_of = VBAR @ CORNER @ lit ''x'', stats = Some (Some 7, 2, 0)\<rparr>,
        \<lparr>text_of = BRANCH @ lit ''B'', stats = Some (Some 9, 3, 0)\<rparr>,
        \<lparr>text_of = CORNER @ lit ''b'', stats = Some (None, 1, 0)\<rparr>]"
proof -
  let ?x = "TreeNode (lit ''x'') True 2 0 (Some 7) []"
  let ?src = "TreeNode (lit ''src'') False 0 0 None [(lit ''x'', ?x)]"
  let ?b = "TreeNode (lit ''b'') True 1 0 None []"
  let ?B = "TreeNode (lit ''B'') True 3 0 (Some 9) []"
  let ?N = "TreeNode (lit ''.'') False 0 0 None [(lit ''b'', ?b), (lit ''src'', ?src), (lit ''B'', ?B)]"
  have tree: "build_tree [\<lparr>path = lit ''b'', insertions = 1, deletions = 0, loc = None\<rparr>,
                   \<lparr>path = lit ''src/x'', insertions = 2, deletions = 0, loc = Some 7\<rparr>,
                   \<lparr>path = lit ''B'', insertions = 3, deletions = 0, loc = Some 9\<rparr>] = ?N"
    by (simp add: build_tree_def root_node_def set_children_def eval_defs)
  have kids: "sort_key sort_key_of (map snd (children ?N)) = [?src, ?B, ?b]"
    by (simp add: sort_key_of_def lit_def)
  have inner: "collect_lines ?src VBAR
               = [\<lparr>text_of = VBAR @ CORNER @ lit ''x'', stats = Some (Some 7, 2, 0)\<rparr>]"
    by (subst collect_lines.simps) (simp add: sort_key_of_def enumerate_eq_zip)
  have "collect_lines ?N [] =
      concat (map (\<lambda>i.
         let child = [?src, ?B, ?b] ! i;
             connector = (if i = length [?src, ?B, ?b] - 1 then CORNER else BRANCH)
         in if is_file child
            then [\<lparr>text_of = [] @ connector @ name child,
                   stats = Some (node_loc child, node_insertions child, node_deletions child)\<rparr>]
            else \<lparr>text_of = [] @ connector @ name child @ [SLASH], stats = None\<rparr>
                 # collect_lines child
                     ([] @ (if i = length [?src, ?B, ?b] - 1 then lit ''    '' else VBAR)))
        [0..<length [?src, ?B, ?b]])"
    using C3_children_sorted_and_connectors[of ?N "[]"] unfolding Let_def kids by blast
  also have "\<dots> = [\<lparr>text_of = BRANCH @ lit ''src/'', stats = None\<rparr>,
        \<lparr>text_of = VBAR @ CORNER @ lit ''x'', stats = Some (Some 7, 2, 0)\<rparr>,
        \<lparr>text_of = BRANCH @ lit ''B'', stats = Some (Some 9, 3, 0)\<rparr>,
        \<lparr>text_of = CORNER @ lit ''b'', stats = Some (None, 1, 0)\<rparr>]"
    using inner by (simp add: Let_def lit_def SLASH_def upt_rec)
  finally show ?thesis unfolding tree .
qed

subsection \<open>The tree builder\<close>

lemma set_children_simps [simp]:
  "children (set_children n kids) = kids"
  "name (set_children n kids) = name n"
  "is_file (set_children n kids) = is_file n"
  "node_insertions (set_children n kids) = node_insertions n"
  "node_deletions (set_children n kids) = node_deletions n"
  "node_loc (set_children n kids) = node_loc n"
  "set_children n (children n) = n"
  by (simp_all add: set_children_def)

lemma map_of_update: "map_of (AList.update k v al) k' = (if k' = k then Some v else map_of al k')"
  by (simp add: update_conv')

text \<open>Walking a path that is already there changes nothing.\<close>

lemma insert_parts_existing:
  "node_at ps n \<noteq> None \<Longrightarrow> insert_parts c ps n = n"
proof (induction ps arbitrary: n)
  case Nil
  show ?case by simp
next
  case (Cons p rest)
  then obtain child where ch: "map_of (children n) p = Some child" "node_at rest child \<noteq> None"
    by (auto split: option.splits)
  then have "insert_parts c rest child = child" using Cons.IH by blast
  then show ?case using ch(1) by (simp add: update_triv)
qed

lemma node_at_insert_parts_self:
  "node_at ps (insert_parts c ps n) \<noteq> None"
  by (induction ps arbitrary: n) (auto simp: map_of_update Let_def split: option.splits)

lemma node_at_insert_parts_keeps:
  "node_at ps n \<noteq> None \<Longrightarrow> node_at ps (insert_parts c qs n) \<noteq> None"
proof (induction ps arbitrary: n qs)
  case Nil
  show ?case by simp
next
  case (Cons p rest)
  then obtain child where ch: "map_of (children n) p = Some child" "node_at rest child \<noteq> None"
    by (auto split: option.splits)
  show ?case
  proof (cases qs)
    case Nil
    then show ?thesis using Cons.prems by simp
  next
    case (Cons q qs')
    show ?thesis
    proof (cases "q = p")
      case True
      have "node_at rest (insert_parts c qs' child) \<noteq> None" using ch(2) Cons.IH by blast
      then show ?thesis using True Cons ch(1) by (simp add: map_of_update)
    next
      case False
      then show ?thesis using Cons ch
        by (auto simp: map_of_update Let_def split: option.splits)
    qed
  qed
qed

lemma foldl_keeps_path:
  "node_at ps n \<noteq> None \<Longrightarrow>
   node_at ps (foldl (\<lambda>root change. insert_parts change (py_split [SLASH] (path change)) root) n ys)
     \<noteq> None"
proof (induction ys arbitrary: n)
  case Nil
  then show ?case by simp
next
  case (Cons y ys)
  have "node_at ps (insert_parts y (py_split [SLASH] (path y)) n) \<noteq> None"
    using Cons.prems by (rule node_at_insert_parts_keeps)
  then show ?case using Cons.IH by (simp only: foldl_Cons)
qed

lemma build_tree_duplicate:
  assumes "path c' = path c"
  shows "build_tree (xs @ c # ys @ c' # zs) = build_tree (xs @ c # ys @ zs)"
proof -
  let ?f = "\<lambda>root change. insert_parts change (py_split [SLASH] (path change)) root"
  let ?T = "foldl ?f root_node (xs @ c # ys)"
  have "node_at (py_split [SLASH] (path c)) (?f (foldl ?f root_node xs) c) \<noteq> None"
    by (rule node_at_insert_parts_self)
  then have "node_at (py_split [SLASH] (path c))
               (foldl ?f (?f (foldl ?f root_node xs) c) ys) \<noteq> None"
    by (rule foldl_keeps_path)
  then have "node_at (py_split [SLASH] (path c)) ?T \<noteq> None"
    by (simp only: foldl_append foldl_Cons simp_thms)
  then have "?f ?T c' = ?T" using assms by (simp add: insert_parts_existing)
  then have "foldl ?f root_node ((xs @ c # ys) @ c' # zs) = foldl ?f root_node ((xs @ c # ys) @ zs)"
    by (simp only: foldl_append foldl_Cons simp_thms)
  then show ?thesis by (simp add: build_tree_def)
qed

text \<open>A path that is not there yet ends, after the walk, in a file node with the change's
  numbers.\<close>

lemma insert_parts_new_leaf:
  "node_at ps n = None \<Longrightarrow>
   \<exists>leaf. node_at ps (insert_parts c ps n) = Some leaf \<and> is_file leaf \<and> name leaf = last ps
     \<and> node_insertions leaf = insertions c \<and> node_deletions leaf = deletions c
     \<and> node_loc leaf = loc c"
proof (induction ps arbitrary: n)
  case Nil
  then show ?case by simp
next
  case (Cons p rest)
  show ?case
  proof (cases "map_of (children n) p")
    case None
    show ?thesis
    proof (cases "rest = []")
      case True
      then show ?thesis using None by (simp add: map_of_update)
    next
      case False
      let ?new = "TreeNode p False 0 0 None []"
      have "node_at rest ?new = None" using False by (cases rest) simp_all
      then obtain leaf where "node_at rest (insert_parts c rest ?new) = Some leaf"
        "is_file leaf" "name leaf = last rest" "node_insertions leaf = insertions c"
        "node_deletions leaf = deletions c" "node_loc leaf = loc c"
        using Cons.IH by blast
      then show ?thesis using None False by (simp add: map_of_update)
    qed
  next
    case (Some child)
    then have none: "node_at rest child = None" using Cons.prems by simp
    then have "rest \<noteq> []" by auto
    moreover obtain leaf where "node_at rest (insert_parts c rest child) = Some leaf"
        "is_file leaf" "name leaf = last rest" "node_insertions leaf = insertions c"
        "node_deletions leaf = deletions c" "node_loc leaf = loc c"
      using none Cons.IH by blast
    ultimately show ?thesis using Some by (simp add: map_of_update)
  qed
qed

text \<open>A later walk leaves the name, the kind and the numbers of every node as they are.\<close>

lemma insert_parts_keeps_stats:
  "node_at ps n = Some m \<Longrightarrow>
   \<exists>m'. node_at ps (insert_parts c qs n) = Some m' \<and> is_file m' = is_file m
     \<and> name m' = name m \<and> node_insertions m' = node_insertions m
     \<and> node_deletions m' = node_deletions m \<and> node_loc m' = node_loc m"
proof (induction ps arbitrary: n qs m)
  case Nil
  then show ?case by (cases qs) (auto simp: Let_def split: option.splits)
next
  case (Cons p rest)
  then obtain child where ch: "map_of (children n) p = Some child" "node_at rest child = Some m"
    by (auto split: option.splits)
  show ?case
  proof (cases qs)
    case Nil
    then show ?thesis using Cons.prems by simp
  next
    case (Cons q qs')
    show ?thesis
    proof (cases "q = p")
      case True
      obtain m' where "node_at rest (insert_parts c qs' child) = Some m'"
        "is_file m' = is_file m" "name m' = name m" "node_insertions m' = node_insertions m"
        "node_deletions m' = node_deletions m" "node_loc m' = node_loc m"
        using ch(2) Cons.IH by blast
      then show ?thesis using True Cons ch(1) by (simp add: map_of_update)
    next
      case False
      then show ?thesis using Cons ch
        by (auto simp: map_of_update Let_def split: option.splits)
    qed
  qed
qed

text \<open>A walk only brings about the paths that are prefixes of the walked one.\<close>

lemma node_at_insert_parts_origin:
  "node_at ps (insert_parts c qs n) \<noteq> None \<Longrightarrow> node_at ps n \<noteq> None \<or> prefix ps qs"
proof (induction ps arbitrary: n qs)
  case Nil
  show ?case by simp
next
  case (Cons p rest)
  show ?case
  proof (cases qs)
    case Nil
    then show ?thesis using Cons.prems by simp
  next
    case qs: (Cons q qs')
    show ?thesis
    proof (cases "q = p")
      case False
      then show ?thesis using Cons.prems qs
        by (auto simp: map_of_update Let_def split: option.splits)
    next
      case True
      show ?thesis
      proof (cases "map_of (children n) p")
        case (Some child)
        then have "node_at rest (insert_parts c qs' child) \<noteq> None"
          using Cons.prems qs True by (simp add: map_of_update)
        then have "node_at rest child \<noteq> None \<or> prefix rest qs'" by (rule Cons.IH)
        then show ?thesis using Some qs True by auto
      next
        case None
        let ?new = "TreeNode p (qs' = []) (if qs' = [] then insertions c else 0)
                      (if qs' = [] then deletions c else 0) (if qs' = [] then loc c else None) []"
        have "node_at rest (insert_parts c qs' ?new) \<noteq> None"
          using Cons.prems qs True None by (simp add: map_of_update Let_def)
        then have "node_at rest ?new \<noteq> None \<or> prefix rest qs'" by (rule Cons.IH)
        moreover have "rest = []" if "node_at rest ?new \<noteq> None"
          using that by (cases rest) simp_all
        ultimately have "prefix rest qs'" by auto
        then show ?thesis using qs True by simp
      qed
    qed
  qed
qed

lemma foldl_no_path:
  "node_at ps n = None \<Longrightarrow>
   \<forall>x\<in>set xs. \<not> prefix ps (py_split [SLASH] (path x)) \<Longrightarrow>
   node_at ps (foldl (\<lambda>root change. insert_parts change (py_split [SLASH] (path change)) root) n xs)
     = None"
proof (induction xs arbitrary: n)
  case Nil
  then show ?case by simp
next
  case (Cons x xs)
  have "node_at ps (insert_parts x (py_split [SLASH] (path x)) n) = None"
  proof (rule ccontr)
    assume "node_at ps (insert_parts x (py_split [SLASH] (path x)) n) \<noteq> None"
    then have "node_at ps n \<noteq> None \<or> prefix ps (py_split [SLASH] (path x))"
      by (rule node_at_insert_parts_origin)
    then show False using Cons.prems by simp
  qed
  then show ?case using Cons by simp
qed

lemma foldl_keeps_stats:
  "node_at ps n = Some m \<Longrightarrow>
   \<exists>m'. node_at ps (foldl (\<lambda>root change. insert_parts change (py_split [SLASH] (path change)) root)
                       n ys) = Some m'
     \<and> is_file m' = is_file m \<and> name m' = name m \<and> node_insertions m' = node_insertions m
     \<and> node_deletions m' = node_deletions m \<and> node_loc m' = node_loc m"
proof (induction ys arbitrary: n m)
  case Nil
  then show ?case by simp
next
  case (Cons y ys)
  obtain m1 where m1: "node_at ps (insert_parts y (py_split [SLASH] (path y)) n) = Some m1"
    "is_file m1 = is_file m" "name m1 = name m" "node_insertions m1 = node_insertions m"
    "node_deletions m1 = node_deletions m" "node_loc m1 = node_loc m"
    using insert_parts_keeps_stats[OF Cons.prems] by blast
  obtain m' where "node_at ps (foldl (\<lambda>root change. insert_parts change (py_split [SLASH] (path change)) root)
         (insert_parts y (py_split [SLASH] (path y)) n) ys) = Some m'"
    "is_file m' = is_file m1" "name m' = name m1" "node_insertions m' = node_insertions m1"
    "node_deletions m' = node_deletions m1" "node_loc m' = node_loc m1"
    using Cons.IH[OF m1(1)] by blast
  then show ?case using m1 by simp
qed

lemma build_tree_first_record:
  assumes "\<forall>x\<in>set xs. \<not> prefix (py_split [SLASH] (path c)) (py_split [SLASH] (path x))"
  shows "\<exists>leaf. node_at (py_split [SLASH] (path c)) (build_tree (xs @ c # rest)) = Some leaf
           \<and> is_file leaf \<and> name leaf = last (py_split [SLASH] (path c))
           \<and> node_insertions leaf = insertions c \<and> node_deletions leaf = deletions c
           \<and> node_loc leaf = loc c"
proof -
  let ?f = "\<lambda>root change. insert_parts change (py_split [SLASH] (path change)) root"
  let ?ps = "py_split [SLASH] (path c)"
  have "?ps \<noteq> []" by (rule py_split_nonempty)
  then have "node_at ?ps root_node = None" by (cases ?ps) (simp_all add: root_node_def)
  then have "node_at ?ps (foldl ?f root_node xs) = None" using assms by (rule foldl_no_path)
  then obtain m where m: "node_at ?ps (?f (foldl ?f root_node xs) c) = Some m"
    "is_file m" "name m = last ?ps" "node_insertions m = insertions c"
    "node_deletions m = deletions c" "node_loc m = loc c"
    using insert_parts_new_leaf by blast
  obtain m' where "node_at ?ps (foldl ?f (?f (foldl ?f root_node xs) c) rest) = Some m'"
    "is_file m' = is_file m" "name m' = name m" "node_insertions m' = node_insertions m"
    "node_deletions m' = node_deletions m" "node_loc m' = node_loc m"
    using foldl_keeps_stats[OF m(1)] by blast
  then show ?thesis using m by (simp add: build_tree_def)
qed

text \<open>
  Claim C10, as amended. A record whose path is the path of an earlier record \<open>c\<close> is
  ignored: the tree built with it is the tree built without it, in shape and in every
  node's numbers. The node the path of \<open>c\<close> leads to is a file node carrying the
  insertions, deletions and loc of \<open>c\<close>, whatever follows \<open>c\<close> in the list, provided no record
  before \<open>c\<close> has a path that starts with all the segments of the path of \<open>c\<close> (so \<open>c\<close> is
  the first record with its path, and no earlier record lies below that path).
\<close>

theorem C10_later_duplicates_ignored:
  "(path c' = path c
      \<longrightarrow> build_tree (xs @ c # ys @ c' # zs) = build_tree (xs @ c # ys @ zs))
   \<and> ((\<forall>x\<in>set xs. \<not> prefix (py_split [SLASH] (path c)) (py_split [SLASH] (path x)))
      \<longrightarrow> (\<exists>leaf. node_at (py_split [SLASH] (path c)) (build_tree (xs @ c # ys @ c' # zs))
                     = Some leaf
                 \<and> is_file leaf \<and> name leaf = last (py_split [SLASH] (path c))
                 \<and> node_insertions leaf = insertions c \<and> node_deletions leaf = deletions c
                 \<and> node_loc leaf = loc c))"
  using build_tree_duplicate[of c' c xs ys zs] build_tree_first_record[of xs c "ys @ c' # zs"]
  by blast

theorem C10_witness:
  "\<not> prefix (py_split [SLASH] (lit ''src/b.py'')) (py_split [SLASH] (lit ''src/a.py''))
   \<and> build_tree [\<lparr>path = lit ''src/a.py'', insertions = 1, deletions = 2, loc = None\<rparr>,
                 \<lparr>path = lit ''src/b.py'', insertions = 3, deletions = 4, loc = Some 10\<rparr>,
                 \<lparr>path = lit ''src/b.py'', insertions = 9, deletions = 9, loc = None\<rparr>]
     = build_tree [\<lparr>path = lit ''src/a.py'', insertions = 1, deletions = 2, loc = None\<rparr>,
                   \<lparr>path = lit ''src/b.py'', insertions = 3, deletions = 4, loc = Some 10\<rparr>]
   \<and> node_at [lit ''src'', lit ''b.py'']
        (build_tree [\<lparr>path = lit ''src/a.py'', insertions = 1, deletions = 2, loc = None\<rparr>,
                     \<lparr>path = lit ''src/b.py'', insertions = 3, deletions = 4, loc = Some 10\<rparr>,
                     \<lparr>path = lit ''src/b.py'', insertions = 9, deletions = 9, loc = None\<rparr>])
     = Some (TreeNode (lit ''b.py'') True 3 4 (Some 10) [])"
proof -
  let ?a = "\<lparr>path = lit ''src/a.py'', insertions = 1, deletions = 2, loc = None\<rparr>"
  let ?b = "\<lparr>path = lit ''src/b.py'', insertions = 3, deletions = 4, loc = Some 10\<rparr>"
  let ?b' = "\<lparr>path = lit ''src/b.py'', insertions = 9, deletions = 9, loc = None\<rparr>"
  have np: "\<not> prefix (py_split [SLASH] (lit ''src/b.py'')) (py_split [SLASH] (lit ''src/a.py''))"
    by (simp add: eval_defs)
  have sp: "py_split [SLASH] (lit ''src/b.py'') = [lit ''src'', lit ''b.py'']"
    by (simp add: eval_defs)
  have same: "path ?b' = path ?b" by simp
  have before: "\<forall>x\<in>set [?a]. \<not> prefix (py_split [SLASH] (path ?b)) (py_split [SLASH] (path x))"
    using np by simp
  note t = C10_later_duplicates_ignored[of ?b' ?b "[?a]" "[]" "[]"]
  have eq: "build_tree [?a, ?b, ?b'] = build_tree [?a, ?b]"
    using t same by simp
  obtain leaf where leaf: "node_at (py_split [SLASH] (path ?b)) (build_tree ([?a] @ ?b # [] @ ?b' # []))
                     = Some leaf" "is_file leaf" "name leaf = last (py_split [SLASH] (path ?b))"
      "node_insertions leaf = insertions ?b" "node_deletions leaf = deletions ?b"
      "node_loc leaf = loc ?b"
    using t before by blast
  have ev: "node_at [lit ''src'', lit ''b.py''] (build_tree [?a, ?b])
            = Some (TreeNode (lit ''b.py'') True 3 4 (Some 10) [])"
    by (simp add: build_tree_def root_node_def set_children_def eval_defs)
  show ?thesis using np eq ev by simp
qed

text \<open>
  The claim as written fails when an earlier record lies below the shared path: after
  \<open>a/b\<close>, the node of \<open>a\<close> is a directory without numbers, and neither record of path \<open>a\<close>
  changes it.
\<close>

theorem C10_counterexample:
  "node_at [lit ''a'']
     (build_tree [\<lparr>path = lit ''a/b'', insertions = 1, deletions = 1, loc = None\<rparr>,
                  \<lparr>path = lit ''a'', insertions = 5, deletions = 0, loc = Some 3\<rparr>,
                  \<lparr>path = lit ''a'', insertions = 7, deletions = 0, loc = Some 4\<rparr>])
   = Some (TreeNode (lit ''a'') False 0 0 None
            [(lit ''b'', TreeNode (lit ''b'') True 1 1 None [])])"
  by (simp add: build_tree_def root_node_def set_children_def eval_defs)

end
